theory Spec2Isabelle
  imports Main "HOL-Library.Word" "HOL-Library.Sublist"
begin

section \<open>JavaScript strings\<close>

text \<open>
  A JavaScript string is a sequence of UTF-16 code units. ASCII literals of the source are
  written with \<open>js\<close>.

  \<^verbatim>\<open>src/zundacord/utils.ts\<close>:
  \<^verbatim>\<open>str.replace(/https?:\/\/[^\s]+/, "").replace(/<a?:[^:]+:[0-9]+>/g, "")\<close>
  \<^verbatim>\<open>.replace(/[^\p{L}\p{N}\p{P}\p{Z}]/gu, "").trim()\<close>
\<close>

type_synonym jschar = "16 word"
type_synonym jsstring = "jschar list"

definition js :: "string \<Rightarrow> jsstring" where
  "js s = map of_char s"

text \<open>
  The code units that \<^verbatim>\<open>\s\<close> matches and \<^verbatim>\<open>trim\<close> strips: the WhiteSpace and LineTerminator
  characters of ECMAScript.
\<close>

definition isWhiteSpace :: "jschar \<Rightarrow> bool" where
  "isWhiteSpace c =
     (c = 0x09 \<or> c = 0x0A \<or> c = 0x0B \<or> c = 0x0C \<or> c = 0x0D \<or> c = 0x20 \<or>
      c = 0xA0 \<or> c = 0x1680 \<or> (0x2000 \<le> c \<and> c \<le> 0x200A) \<or>
      c = 0x2028 \<or> c = 0x2029 \<or> c = 0x202F \<or> c = 0x205F \<or> c = 0x3000 \<or> c = 0xFEFF)"

definition isDigit :: "jschar \<Rightarrow> bool" where
  "isDigit c = (0x30 \<le> c \<and> c \<le> 0x39)"

text \<open>
  \<^verbatim>\<open>/https?:\/\/[^\s]+/\<close> tried at the start of a string: the length of the match, if there
  is one. The optional \<^verbatim>\<open>s\<close> is taken when it is there (without it the colon would have to
  match the \<^verbatim>\<open>s\<close>), and \<^verbatim>\<open>[^\s]+\<close> takes every code unit up to the next white space, at
  least one. The pattern has no \<^verbatim>\<open>g\<close> flag: \<^verbatim>\<open>replace\<close> cuts out the leftmost match only.
\<close>

definition matchScheme :: "jsstring \<Rightarrow> nat option" where
  "matchScheme s =
     (if prefix (js ''https://'') s then Some 8
      else if prefix (js ''http://'') s then Some 7
      else None)"

definition matchUrl :: "jsstring \<Rightarrow> nat option" where
  "matchUrl s =
     (case matchScheme s of
        None \<Rightarrow> None
      | Some k \<Rightarrow>
          (let body = takeWhile (\<lambda>c. \<not> isWhiteSpace c) (drop k s)
           in if body = [] then None else Some (k + length body)))"

fun replaceFirstUrl :: "jsstring \<Rightarrow> jsstring" where
  "replaceFirstUrl [] = []"
| "replaceFirstUrl (c # cs) =
     (case matchUrl (c # cs) of
        Some n \<Rightarrow> drop n (c # cs)
      | None \<Rightarrow> c # replaceFirstUrl cs)"

text \<open>
  \<^verbatim>\<open>/<a?:[^:]+:[0-9]+>/g\<close> tried at the start of a string. \<^verbatim>\<open>[^:]+\<close> takes every code unit
  up to the next colon and \<^verbatim>\<open>[0-9]+\<close> every digit that follows; giving some of them back
  cannot help, as the next character of the pattern is none of them. With the \<^verbatim>\<open>g\<close> flag
  \<^verbatim>\<open>replace\<close> goes on behind every match.
\<close>

definition matchEmojiHead :: "jsstring \<Rightarrow> nat option" where
  "matchEmojiHead s =
     (if prefix (js ''<a:'') s then Some 3
      else if prefix (js ''<:'') s then Some 2
      else None)"

definition matchEmoji :: "jsstring \<Rightarrow> nat option" where
  "matchEmoji s =
     (case matchEmojiHead s of
        None \<Rightarrow> None
      | Some k \<Rightarrow>
          (let name = takeWhile (\<lambda>c. c \<noteq> 0x3A) (drop k s);
               r1 = dropWhile (\<lambda>c. c \<noteq> 0x3A) (drop k s)
           in if name = [] then None
              else case r1 of
                [] \<Rightarrow> None
              | colon # r2 \<Rightarrow>
                  (let digits = takeWhile isDigit r2;
                       r3 = dropWhile isDigit r2
                   in if digits = [] then None
                      else case r3 of
                        [] \<Rightarrow> None
                      | c # r4 \<Rightarrow>
                          if c = 0x3E
                          then Some (k + length name + 1 + length digits + 1)
                          else None)))"

function replaceAllEmoji :: "jsstring \<Rightarrow> jsstring" where
  "replaceAllEmoji [] = []"
| "replaceAllEmoji (c # cs) =
     (case matchEmoji (c # cs) of
        Some n \<Rightarrow> replaceAllEmoji (drop n (c # cs))
      | None \<Rightarrow> c # replaceAllEmoji cs)"
  by pat_completeness auto
termination
proof (relation "measure length")
  fix c cs n
  assume "matchEmoji (c # cs) = Some n"
  then have "0 < n"
    by (auto simp: matchEmoji_def Let_def split: option.splits if_splits list.splits)
  then show "(drop n (c # cs), c # cs) \<in> measure length"
    by simp
qed simp_all

text \<open>
  \<^verbatim>\<open>/[^\p{L}\p{N}\p{P}\p{Z}]/gu\<close> removes every code point that is no letter, number,
  punctuation or separator; with the \<^verbatim>\<open>u\<close> flag a surrogate pair is one code point. The
  table of general categories belongs to the JavaScript engine, not to the repository: the
  ASCII part is written out (\<^verbatim>\<open>$ + < = > ^ ` | ~\<close> and the control characters are in none of
  the four classes), a surrogate on its own has category Cs, and the classes of every other
  code point are the parameter \<open>uni\<close>.
\<close>

definition isHighSurrogate :: "jschar \<Rightarrow> bool" where
  "isHighSurrogate c = (0xD800 \<le> c \<and> c \<le> 0xDBFF)"

definition isLowSurrogate :: "jschar \<Rightarrow> bool" where
  "isLowSurrogate c = (0xDC00 \<le> c \<and> c \<le> 0xDFFF)"

definition codePoint :: "jschar \<Rightarrow> jschar \<Rightarrow> nat" where
  "codePoint h l = 0x10000 + (unat h - 0xD800) * 0x400 + (unat l - 0xDC00)"

definition asciiReadable :: "nat \<Rightarrow> bool" where
  "asciiReadable cp =
     (cp = 0x20 \<or> (0x21 \<le> cp \<and> cp \<le> 0x23) \<or> (0x25 \<le> cp \<and> cp \<le> 0x2A) \<or>
      (0x2C \<le> cp \<and> cp \<le> 0x2F) \<or> (0x30 \<le> cp \<and> cp \<le> 0x39) \<or>
      cp = 0x3A \<or> cp = 0x3B \<or> cp = 0x3F \<or> cp = 0x40 \<or>
      (0x41 \<le> cp \<and> cp \<le> 0x5A) \<or> (0x5B \<le> cp \<and> cp \<le> 0x5D) \<or> cp = 0x5F \<or>
      (0x61 \<le> cp \<and> cp \<le> 0x7A) \<or> cp = 0x7B \<or> cp = 0x7D)"

definition isReadable :: "(nat \<Rightarrow> bool) \<Rightarrow> nat \<Rightarrow> bool" where
  "isReadable uni cp =
     (if cp < 0x80 then asciiReadable cp
      else if 0xD800 \<le> cp \<and> cp \<le> 0xDFFF then False
      else uni cp)"

fun stripUnreadable :: "(nat \<Rightarrow> bool) \<Rightarrow> jsstring \<Rightarrow> jsstring" where
  "stripUnreadable uni [] = []"
| "stripUnreadable uni [c] = (if isReadable uni (unat c) then [c] else [])"
| "stripUnreadable uni (h # l # cs) =
     (if isHighSurrogate h \<and> isLowSurrogate l
      then (if isReadable uni (codePoint h l)
            then h # l # stripUnreadable uni cs
            else stripUnreadable uni cs)
      else (if isReadable uni (unat h)
            then h # stripUnreadable uni (l # cs)
            else stripUnreadable uni (l # cs)))"

definition trim :: "jsstring \<Rightarrow> jsstring" where
  "trim s = rev (dropWhile isWhiteSpace (rev (dropWhile isWhiteSpace s)))"

definition getReadableString :: "(nat \<Rightarrow> bool) \<Rightarrow> jsstring \<Rightarrow> jsstring" where
  "getReadableString uni str =
     trim (stripUnreadable uni (replaceAllEmoji (replaceFirstUrl str)))"

text \<open>
  Strings in the shape the normaliser looks for: a Discord emoji escape
  \<^verbatim>\<open><:name:id>\<close> or \<^verbatim>\<open><a:name:id>\<close>, an http(s) URL, and the sequence of code points
  of a string (a surrogate pair read as one code point, as a regular expression with the
  \<^verbatim>\<open>u\<close> flag reads it). A \<open>piece\<close> is a unit of message content: a white space character, an emoji escape with a name as Discord allows it (no
  colon, no white space), a URL, a symbol of the basic plane outside the classes L, N, P and
  Z, or such a symbol beyond the basic plane, written as its surrogate pair. A \<open>Word\<close> is
  text that stays: ASCII letters, digits and punctuation.
\<close>

definition mkEmoji :: "bool \<Rightarrow> jsstring \<Rightarrow> jsstring \<Rightarrow> jsstring" where
  "mkEmoji animated name digits =
     js ''<'' @ (if animated then js ''a'' else []) @ js '':'' @ name @ js '':'' @ digits @ js ''>''"

definition mkUrl :: "bool \<Rightarrow> jsstring \<Rightarrow> jsstring" where
  "mkUrl secure body = (if secure then js ''https://'' else js ''http://'') @ body"

fun codePoints :: "jsstring \<Rightarrow> nat list" where
  "codePoints [] = []"
| "codePoints [c] = [unat c]"
| "codePoints (h # l # cs) =
     (if isHighSurrogate h \<and> isLowSurrogate l
      then codePoint h l # codePoints cs
      else unat h # codePoints (l # cs))"

datatype piece =
    Space jschar
  | Emoji bool jsstring jsstring
  | Url bool jsstring
  | Symbol jschar
  | Pictograph jschar jschar
  | Word jsstring

fun render :: "piece \<Rightarrow> jsstring" where
  "render (Space c) = [c]"
| "render (Emoji animated name digits) = mkEmoji animated name digits"
| "render (Url secure body) = mkUrl secure body"
| "render (Symbol c) = [c]"
| "render (Pictograph h l) = [h, l]"
| "render (Word w) = w"

fun validPiece :: "(nat \<Rightarrow> bool) \<Rightarrow> piece \<Rightarrow> bool" where
  "validPiece uni (Space c) = isWhiteSpace c"
| "validPiece uni (Emoji animated name digits) =
     (name \<noteq> [] \<and> list_all (\<lambda>c. c \<noteq> 0x3A \<and> \<not> isWhiteSpace c) name \<and>
      digits \<noteq> [] \<and> list_all isDigit digits)"
| "validPiece uni (Url secure body) =
     (body \<noteq> [] \<and> list_all (\<lambda>c. \<not> isWhiteSpace c) body)"
| "validPiece uni (Symbol c) =
     (0x80 \<le> c \<and> \<not> isHighSurrogate c \<and> \<not> isLowSurrogate c \<and> \<not> isWhiteSpace c \<and>
      \<not> isReadable uni (unat c))"
| "validPiece uni (Pictograph h l) =
     (isHighSurrogate h \<and> isLowSurrogate l \<and> \<not> isReadable uni (codePoint h l))"
| "validPiece uni (Word w) =
     (w \<noteq> [] \<and> list_all (\<lambda>c. c < 0x80 \<and> asciiReadable (unat c) \<and> c \<noteq> 0x20) w)"

fun isUrl :: "piece \<Rightarrow> bool" where
  "isUrl (Url secure body) = True"
| "isUrl p = False"

fun isEmoji :: "piece \<Rightarrow> bool" where
  "isEmoji (Emoji animated name digits) = True"
| "isEmoji p = False"


fun isSpace :: "piece \<Rightarrow> bool" where
  "isSpace (Space c) = True"
| "isSpace p = False"

text \<open>
  A piece in front of which, and in which, no URL starts: no URL, and no word with the
  letter \<^verbatim>\<open>h\<close>. The pieces that stay in the result: the words, and the white space that
  is a separator (class Z; a tab or a line break is a control character and goes).
\<close>

fun frontPiece :: "piece \<Rightarrow> bool" where
  "frontPiece (Url secure body) = False"
| "frontPiece (Word w) = (0x68 \<notin> set w)"
| "frontPiece p = True"

fun kept :: "(nat \<Rightarrow> bool) \<Rightarrow> piece \<Rightarrow> bool" where
  "kept uni (Word w) = True"
| "kept uni (Space c) = isReadable uni (unat c)"
| "kept uni p = False"

fun startsWithSpace :: "piece list \<Rightarrow> bool" where
  "startsWithSpace [] = True"
| "startsWithSpace (p # ps) = isSpace p"

section \<open>The bot: \<^verbatim>\<open>src/zundacord/app.ts\<close>\<close>

text \<open>
  Discord identifiers (snowflakes) are strings. Calls to the logger write to the process
  log only and are left out. Every handler runs to completion on the state it is given:
  the promises it awaits (the configuration lookup, the reply) change nothing of the
  state below.
\<close>

type_synonym snowflake = string
type_synonym ref = nat

record utterance =
  styleId :: int
  message :: jsstring

record voice_connection =
  vc_guildId :: snowflake
  vc_channelId :: snowflake

text \<open>
  Class \<^verbatim>\<open>Player\<close> (\<^verbatim>\<open>./player\<close>) is imported by \<^verbatim>\<open>app.ts\<close> and is not among the sources:
  the bot is modelled over any implementation of the four members it uses, none of which
  returns a value to the bot.
\<close>

record 'p player_class =
  Player_new :: 'p
  Player_setStreamTarget :: "voice_connection \<Rightarrow> 'p \<Rightarrow> 'p"
  Player_queueMessage :: "utterance \<Rightarrow> 'p \<Rightarrow> 'p"
  Player_skipCurrentMessage :: "'p \<Rightarrow> 'p"

text \<open>
  The state of a \<^verbatim>\<open>Zundacord\<close> object. \<open>guildPlayers\<close> is the \<^verbatim>\<open>Map<string, Player>\<close>;
  its values are references into \<open>heap\<close>, the Player objects allocated so far, so that an
  object taken out of the map is still there. \<open>voiceConnections\<close> is the table of
  \<^verbatim>\<open>@discordjs/voice\<close> that \<^verbatim>\<open>getVoiceConnection\<close> reads, \<^verbatim>\<open>joinVoiceChannel\<close> extends
  and \<^verbatim>\<open>destroy\<close> shrinks. \<open>memberVoiceStyleId\<close> is the lookup
  \<^verbatim>\<open>config.getMemberVoiceStyleId(guildId, userId)\<close>, \<open>None\<close> for \<^verbatim>\<open>undefined\<close>.
\<close>

record 'p zundacord =
  applicationId :: snowflake
  guildPlayers :: "snowflake \<rightharpoonup> ref"
  heap :: "ref \<Rightarrow> 'p"
  nextRef :: ref
  voiceConnections :: "snowflake \<rightharpoonup> voice_connection"
  memberVoiceStyleId :: "snowflake \<Rightarrow> snowflake \<Rightarrow> int option"

record message =
  msg_authorId :: snowflake
  msg_guildId :: "snowflake option"
  msg_content :: jsstring

text \<open>\<^verbatim>\<open>Message<true>\<close>: a message known to be in a guild, as \<^verbatim>\<open>msg.inGuild()\<close> narrows it.\<close>

record guild_message =
  gm_guildId :: snowflake
  gm_content :: jsstring

definition inGuild :: "message \<Rightarrow> guild_message option" where
  "inGuild msg =
     (case msg_guildId msg of
        None \<Rightarrow> None
      | Some g \<Rightarrow> Some \<lparr>gm_guildId = g, gm_content = msg_content msg\<rparr>)"

record voice_channel =
  channel_id :: snowflake
  channel_name :: string

record guild_member =
  member_voice_channel :: "voice_channel option"

text \<open>
  A command interaction: \<open>ci_member\<close> is \<^verbatim>\<open>interaction.guild.members.cache.get(interaction.user.id)\<close>.
\<close>

record command_interaction =
  ci_guildId :: snowflake
  ci_userId :: snowflake
  ci_inCachedGuild :: bool
  ci_member :: "guild_member option"

record embed =
  embed_footer :: string
  embed_color :: "nat option"
  embed_title :: "string option"
  embed_description :: "string option"

definition COLOR_SUCCESS :: nat where "COLOR_SUCCESS = 0x47ff94"
definition COLOR_FAILURE :: nat where "COLOR_FAILURE = 0xff4a47"
definition COLOR_ACTION :: nat where "COLOR_ACTION = 0x45b5ff"

definition zundaEmbed :: embed where
  "zundaEmbed =
     \<lparr>embed_footer = ''sarisia/zundacord'', embed_color = None,
      embed_title = None, embed_description = None\<rparr>"

definition mkEmbed :: "nat \<Rightarrow> string \<Rightarrow> string \<Rightarrow> embed" where
  "mkEmbed c t d =
     zundaEmbed\<lparr>embed_color := Some c, embed_title := Some t, embed_description := Some d\<rparr>"

definition queueMessage ::
  "'p player_class \<Rightarrow> (nat \<Rightarrow> bool) \<Rightarrow> 'p zundacord \<Rightarrow> guild_message \<Rightarrow> int \<Rightarrow> 'p zundacord" where
  "queueMessage P uni app msg sid =
     (case guildPlayers app (gm_guildId msg) of
        None \<Rightarrow> app
      | Some r \<Rightarrow>
          (let readableStr = getReadableString uni (gm_content msg)
           in app\<lparr>heap := (heap app)
                (r := Player_queueMessage P \<lparr>styleId = sid, message = readableStr\<rparr> (heap app r))\<rparr>))"

definition onMessageCreate ::
  "'p player_class \<Rightarrow> (nat \<Rightarrow> bool) \<Rightarrow> 'p zundacord \<Rightarrow> message \<Rightarrow> 'p zundacord" where
  "onMessageCreate P uni app msg =
     (if msg_authorId msg = applicationId app then app
      else case inGuild msg of
        None \<Rightarrow> app
      | Some gmsg \<Rightarrow>
          (case memberVoiceStyleId app (gm_guildId gmsg) (msg_authorId msg) of
             None \<Rightarrow> app
           | Some sid \<Rightarrow> queueMessage P uni app gmsg sid))"

definition messageContextReadThisMessage ::
  "'p player_class \<Rightarrow> (nat \<Rightarrow> bool) \<Rightarrow> 'p zundacord \<Rightarrow> command_interaction \<Rightarrow> guild_message
     \<Rightarrow> 'p zundacord \<times> embed" where
  "messageContextReadThisMessage P uni app interaction targetMessage =
     (case memberVoiceStyleId app (ci_guildId interaction) (ci_userId interaction) of
        None \<Rightarrow>
          (app, mkEmbed COLOR_FAILURE ''Cannot read'' ''Set your voice with /voice first'')
      | Some sid \<Rightarrow>
          (queueMessage P uni app targetMessage sid,
           mkEmbed COLOR_SUCCESS ''Successfully enqueued!''
             ''The message is successfully enqueued to be read''))"

definition slashJoin ::
  "'p player_class \<Rightarrow> 'p zundacord \<Rightarrow> command_interaction \<Rightarrow> 'p zundacord \<times> embed" where
  "slashJoin P app interaction =
     (if voiceConnections app (ci_guildId interaction) \<noteq> None
      then (app, mkEmbed COLOR_SUCCESS ''Already joined!'' ''The bot is already in voice'')
      else case ci_member interaction of
        None \<Rightarrow> (app, mkEmbed COLOR_FAILURE ''Cannot join'' ''You are not in guild'')
      | Some member \<Rightarrow>
          (case member_voice_channel member of
             None \<Rightarrow>
               (app, mkEmbed COLOR_FAILURE ''Cannot join'' ''You need to join to the voice first'')
           | Some memberVoiceChannel \<Rightarrow>
               (let vc = \<lparr>vc_guildId = ci_guildId interaction,
                          vc_channelId = channel_id memberVoiceChannel\<rparr>;
                    player = Player_setStreamTarget P vc (Player_new P);
                    r = nextRef app
                in (app\<lparr>voiceConnections := (voiceConnections app)(ci_guildId interaction \<mapsto> vc),
                        heap := (heap app)(r := player),
                        nextRef := Suc r,
                        guildPlayers := (guildPlayers app)(ci_guildId interaction \<mapsto> r)\<rparr>,
                    mkEmbed COLOR_SUCCESS ''Joined!''
                      (''Joined to '' @ channel_name memberVoiceChannel)))))"

text \<open>
  The handler \<^verbatim>\<open>slashJoin\<close> registers on the connection for
  \<^verbatim>\<open>VoiceConnectionStatus.Disconnected\<close>. It awaits
  \<^verbatim>\<open>Promise.race([entersState(vc, Signalling, 5000), entersState(vc, Connecting, 5000)])\<close>;
  the argument says how the race ended.
\<close>

datatype race_result = EnteredState | Rejected

definition onDisconnected ::
  "'p zundacord \<Rightarrow> snowflake \<Rightarrow> race_result \<Rightarrow> 'p zundacord" where
  "onDisconnected app guild res =
     (case res of
        EnteredState \<Rightarrow> app
      | Rejected \<Rightarrow>
          app\<lparr>voiceConnections := (voiceConnections app)(guild := None),
              guildPlayers := (guildPlayers app)(guild := None)\<rparr>)"

definition slashSkip ::
  "'p player_class \<Rightarrow> 'p zundacord \<Rightarrow> command_interaction \<Rightarrow> 'p zundacord \<times> embed" where
  "slashSkip P app interaction =
     (if \<not> ci_inCachedGuild interaction
      then (app, mkEmbed COLOR_FAILURE ''Cannot skip'' ''The bot is not in the guild'')
      else case guildPlayers app (ci_guildId interaction) of
        None \<Rightarrow> (app, mkEmbed COLOR_FAILURE ''Cannot skip'' ''The bot is not in voice'')
      | Some r \<Rightarrow>
          (app\<lparr>heap := (heap app)(r := Player_skipCurrentMessage P (heap app r))\<rparr>,
           mkEmbed COLOR_SUCCESS ''Skipped!'' ''Skipped the message''))"

text \<open>
  The constructor (\<open>guildPlayers\<close> an empty map, \<open>applicationId\<close> the empty string) and
  \<^verbatim>\<open>onReady\<close>, which stores the application id and throws when there is none.
\<close>

definition newZundacord ::
  "'p player_class \<Rightarrow> (snowflake \<Rightarrow> snowflake \<Rightarrow> int option) \<Rightarrow> 'p zundacord" where
  "newZundacord P config =
     \<lparr>applicationId = [], guildPlayers = Map.empty, heap = (\<lambda>r. Player_new P), nextRef = 0,
      voiceConnections = Map.empty, memberVoiceStyleId = config\<rparr>"

definition onReady :: "'p zundacord \<Rightarrow> snowflake option \<Rightarrow> 'p zundacord option" where
  "onReady app clientApplicationId =
     (case clientApplicationId of
        None \<Rightarrow> None
      | Some a \<Rightarrow> if a = [] then None else Some (app\<lparr>applicationId := a\<rparr>))"

text \<open>
  A stand-in for \<^verbatim>\<open>Player\<close> that only records, in order, the utterances it is given: it
  shows what the bot passes to \<^verbatim>\<open>player.queueMessage\<close>.
\<close>

definition recordingPlayer :: "utterance list player_class" where
  "recordingPlayer =
     \<lparr>Player_new = [], Player_setStreamTarget = (\<lambda>vc p. p),
      Player_queueMessage = (\<lambda>u p. p @ [u]), Player_skipCurrentMessage = (\<lambda>p. p)\<rparr>"

text \<open>
  A \<^verbatim>\<open>/join\<close> sent in guild \<open>g\<close> by user \<open>u\<close>, who sits in voice channel \<open>c\<close>; and the bot
  after that command on a fresh object whose configuration knows style 3 for user \<open>u\<close> only.
\<close>

definition joinRequest :: "snowflake \<Rightarrow> snowflake \<Rightarrow> snowflake \<Rightarrow> command_interaction" where
  "joinRequest g u c =
     \<lparr>ci_guildId = g, ci_userId = u, ci_inCachedGuild = True,
      ci_member = Some \<lparr>member_voice_channel = Some \<lparr>channel_id = c, channel_name = ''General''\<rparr>\<rparr>\<rparr>"

definition joinedApp :: "'p player_class \<Rightarrow> 'p zundacord" where
  "joinedApp P =
     fst (slashJoin P
       ((newZundacord P (\<lambda>g u. if u = ''u'' then Some 3 else None))\<lparr>applicationId := ''bot''\<rparr>)
       (joinRequest ''g'' ''u'' ''c''))"

section \<open>The player engine\<close>

text \<open>
  Modelled from the spec: class \<^verbatim>\<open>Player\<close> of \<^verbatim>\<open>src/zundacord/player.ts\<close> (its queue, its
  synthesis pipeline and its playback state machine) is not among the sources, which hold
  only its caller \<^verbatim>\<open>app.ts\<close>. The engine below follows sections 3, 4 and 7 of the
  specification.

  \<^item> An utterance is the object \<^verbatim>\<open>{styleId, message}\<close> the bot passes; the sequence number
    given at enqueue is its identity (the tag of its synthesis request).
  \<^item> \<open>queue\<close> is the PlaybackQueue, \<open>current\<close> the slot of the utterance being synthesized
    or played, \<open>outputBinding\<close> the output binding.
  \<^item> \<open>streamed\<close> lists the utterances whose audio was handed to the output, \<open>finished\<close>
    the utterances that left the \<open>current\<close> slot or were discarded, each with the way it
    left, oldest first.
  \<^item> Prefetching the next synthesis during playback is optional in section 4.2 and changes
    no state of section 4.3; it is not modelled.
  \<^item> \<open>skipCurrent\<close> pulls the next utterance at once (section 4.3); the late result of the
    skipped request no longer carries the identity of \<open>current\<close> and is dropped without a
    further pull, so that a skip removes exactly one utterance (section 8).
  \<^item> A synthesis result that finds no output binding returns the engine to \<open>Idle\<close>
    (section 7); the utterance goes back to the head of the queue and \<open>rebindOutput\<close>
    resumes.
  \<^item> \<open>enqueue\<close> on a \<open>Draining\<close> engine appends and changes no state, as section 4.3 says of
    every state but \<open>Idle\<close>; nothing pulls from that queue again.
\<close>

datatype engine_state = Idle | Synthesizing | Playing | Draining

datatype outcome = Completed | Errored | Skipped | Failed | Discarded

type_synonym entry = "nat \<times> utterance"

record engine =
  state :: engine_state
  queue :: "entry list"
  current :: "entry option"
  retried :: bool
  nextId :: nat
  outputBinding :: "voice_connection option"
  streamed :: "entry list"
  finished :: "(entry \<times> outcome) list"

definition newEngine :: engine where
  "newEngine =
     \<lparr>state = Idle, queue = [], current = None, retried = False, nextId = 0,
      outputBinding = None, streamed = [], finished = []\<rparr>"

definition currentList :: "engine \<Rightarrow> entry list" where
  "currentList e = (case current e of None \<Rightarrow> [] | Some x \<Rightarrow> [x])"

definition pending :: "engine \<Rightarrow> entry list" where
  "pending e = currentList e @ queue e"

definition pullNext :: "engine \<Rightarrow> engine" where
  "pullNext e =
     (case queue e of
        [] \<Rightarrow> e\<lparr>state := Idle, current := None, retried := False\<rparr>
      | x # xs \<Rightarrow> e\<lparr>state := Synthesizing, current := Some x, queue := xs, retried := False\<rparr>)"

definition leave :: "outcome \<Rightarrow> engine \<Rightarrow> engine" where
  "leave oc e =
     (case current e of
        None \<Rightarrow> e
      | Some x \<Rightarrow> e\<lparr>current := None, finished := finished e @ [(x, oc)]\<rparr>)"

definition enqueue :: "utterance \<Rightarrow> engine \<Rightarrow> engine" where
  "enqueue u e =
     (let e' = e\<lparr>queue := queue e @ [(nextId e, u)], nextId := Suc (nextId e)\<rparr>
      in if state e = Idle then pullNext e' else e')"

definition skipCurrent :: "engine \<Rightarrow> engine" where
  "skipCurrent e =
     (if state e = Synthesizing \<or> state e = Playing then pullNext (leave Skipped e) else e)"

definition rebindOutput :: "voice_connection \<Rightarrow> engine \<Rightarrow> engine" where
  "rebindOutput sink e =
     (case state e of
        Draining \<Rightarrow> e
      | Playing \<Rightarrow> e\<lparr>outputBinding := Some sink, streamed := streamed e @ currentList e\<rparr>
      | Synthesizing \<Rightarrow> e\<lparr>outputBinding := Some sink\<rparr>
      | Idle \<Rightarrow> pullNext (e\<lparr>outputBinding := Some sink\<rparr>))"

definition shutdown :: "engine \<Rightarrow> engine" where
  "shutdown e =
     (if state e = Draining then e
      else e\<lparr>state := Draining, outputBinding := None, queue := [], current := None,
             finished := finished e @ map (\<lambda>x. (x, Discarded)) (pending e)\<rparr>)"

definition synthesisSucceeded :: "nat \<Rightarrow> engine \<Rightarrow> engine" where
  "synthesisSucceeded i e =
     (case current e of
        None \<Rightarrow> e
      | Some x \<Rightarrow>
          if state e = Synthesizing \<and> fst x = i
          then (case outputBinding e of
                  None \<Rightarrow> e\<lparr>state := Idle, current := None, queue := x # queue e,
                             retried := False\<rparr>
                | Some sink \<Rightarrow> e\<lparr>state := Playing, streamed := streamed e @ [x]\<rparr>)
          else e)"

definition synthesisFailed :: "nat \<Rightarrow> engine \<Rightarrow> engine" where
  "synthesisFailed i e =
     (case current e of
        None \<Rightarrow> e
      | Some x \<Rightarrow>
          if state e = Synthesizing \<and> fst x = i
          then (if retried e then pullNext (leave Failed e) else e\<lparr>retried := True\<rparr>)
          else e)"

definition streamCompleted :: "engine \<Rightarrow> engine" where
  "streamCompleted e = (if state e = Playing then pullNext (leave Completed e) else e)"

definition streamErrored :: "engine \<Rightarrow> engine" where
  "streamErrored e = (if state e = Playing then pullNext (leave Errored e) else e)"

definition specPlayer :: "engine player_class" where
  "specPlayer =
     \<lparr>Player_new = newEngine, Player_setStreamTarget = rebindOutput,
      Player_queueMessage = enqueue, Player_skipCurrentMessage = skipCurrent\<rparr>"

text \<open>
  What happens to one engine: the calls of its owner, and the answers of the synthesis
  service (tagged with the identity of the request) and of the output sink.
\<close>

datatype event =
    Enqueue utterance
  | SkipCurrent
  | SynthesisSucceeded nat
  | SynthesisFailed nat
  | StreamCompleted
  | StreamErrored

fun step :: "event \<Rightarrow> engine \<Rightarrow> engine" where
  "step (Enqueue u) e = enqueue u e"
| "step SkipCurrent e = skipCurrent e"
| "step (SynthesisSucceeded i) e = synthesisSucceeded i e"
| "step (SynthesisFailed i) e = synthesisFailed i e"
| "step StreamCompleted e = streamCompleted e"
| "step StreamErrored e = streamErrored e"

definition run :: "event list \<Rightarrow> engine \<Rightarrow> engine" where
  "run evs e = fold step evs e"

text \<open>
  The answer a working synthesis service and a working sink give an engine next, and an
  engine left to them for \<open>n\<close> rounds.
\<close>

definition respond :: "engine \<Rightarrow> event list" where
  "respond e =
     (case state e of
        Synthesizing \<Rightarrow> (case current e of None \<Rightarrow> [] | Some x \<Rightarrow> [SynthesisSucceeded (fst x)])
      | Playing \<Rightarrow> [StreamCompleted]
      | Idle \<Rightarrow> []
      | Draining \<Rightarrow> [])"

fun settle :: "nat \<Rightarrow> engine \<Rightarrow> engine" where
  "settle 0 e = e"
| "settle (Suc n) e = settle n (run (respond e) e)"

fun enqueuedFrom :: "nat \<Rightarrow> event list \<Rightarrow> entry list" where
  "enqueuedFrom n [] = []"
| "enqueuedFrom n (Enqueue u # evs) = (n, u) # enqueuedFrom (Suc n) evs"
| "enqueuedFrom n (ev # evs) = enqueuedFrom n evs"

fun isEnqueue :: "event \<Rightarrow> bool" where
  "isEnqueue (Enqueue u) = True"
| "isEnqueue ev = False"

fun isFailure :: "event \<Rightarrow> bool" where
  "isFailure (SynthesisFailed i) = True"
| "isFailure ev = False"

text \<open>
  What the output has received: \<open>streamed\<close> lists the utterances whose audio the engine
  handed to the output. \<open>ended\<close> are the utterances for which the sink reported the end of
  the stream (completed or broken). \<open>delivered\<close> are the streamed utterances whose stream
  ended so, \<open>completed\<close> the streamed utterances whose stream the sink reported as
  completed; \<open>skipped\<close> are the utterances a \<open>skipCurrent\<close> removed. \<open>supplied\<close> lists the
  utterances given to \<open>enqueue\<close>, as they were given.
\<close>

definition withOutcome :: "(outcome \<Rightarrow> bool) \<Rightarrow> engine \<Rightarrow> entry list" where
  "withOutcome P e = map fst (filter (\<lambda>x. P (snd x)) (finished e))"

definition ended :: "engine \<Rightarrow> entry list" where
  "ended e = withOutcome (\<lambda>oc. oc = Completed \<or> oc = Errored) e"

definition delivered :: "engine \<Rightarrow> entry list" where
  "delivered e = filter (\<lambda>x. x \<in> set (ended e)) (streamed e)"

definition completed :: "engine \<Rightarrow> entry list" where
  "completed e = filter (\<lambda>x. x \<in> set (withOutcome (\<lambda>oc. oc = Completed) e)) (streamed e)"

definition skipped :: "engine \<Rightarrow> entry list" where
  "skipped e = withOutcome (\<lambda>oc. oc = Skipped) e"

fun supplied :: "event list \<Rightarrow> utterance list" where
  "supplied [] = []"
| "supplied (Enqueue u # evs) = u # supplied evs"
| "supplied (ev # evs) = supplied evs"

definition atRest :: "engine \<Rightarrow> bool" where
  "atRest e = (state e = Idle \<and> current e = None \<and> queue e = [])"

definition engine_ok :: "engine \<Rightarrow> bool" where
  "engine_ok e = ((current e = None) = (state e = Idle \<or> state e = Draining))"

text \<open>
  Terms of the statements about the engine: the entry in the \<open>current\<close> slot while it
  plays; the events of a run in which the service and the sink never fail and nothing is
  skipped; the engine as the bot makes it (\<^verbatim>\<open>new Player\<close>, then \<^verbatim>\<open>setStreamTarget\<close>); an
  engine that can go on (bound to an output, not shut down, nothing waiting while idle);
  and the number of answers an engine still needs before it is at rest.
\<close>

definition playingList :: "engine \<Rightarrow> entry list" where
  "playingList e = (if state e = Playing then currentList e else [])"

fun isClean :: "event \<Rightarrow> bool" where
  "isClean (Enqueue u) = True"
| "isClean (SynthesisSucceeded i) = True"
| "isClean StreamCompleted = True"
| "isClean ev = False"

text \<open>The ways of leaving the \<open>current\<close> slot that an event can cause.\<close>

fun outcomeOf :: "event \<Rightarrow> outcome set" where
  "outcomeOf (Enqueue u) = {}"
| "outcomeOf SkipCurrent = {Skipped}"
| "outcomeOf (SynthesisSucceeded i) = {}"
| "outcomeOf (SynthesisFailed i) = {Failed}"
| "outcomeOf StreamCompleted = {Completed}"
| "outcomeOf StreamErrored = {Errored}"

definition boundEngine :: "voice_connection \<Rightarrow> engine" where
  "boundEngine vc = rebindOutput vc newEngine"

definition live :: "engine \<Rightarrow> bool" where
  "live e =
     (engine_ok e \<and> outputBinding e \<noteq> None \<and> state e \<noteq> Draining \<and>
      (state e \<noteq> Idle \<or> queue e = []))"

definition workLeft :: "engine \<Rightarrow> nat" where
  "workLeft e =
     2 * length (queue e) +
     (case state e of Synthesizing \<Rightarrow> 2 | Playing \<Rightarrow> 1 | Idle \<Rightarrow> 0 | Draining \<Rightarrow> 0)"

text \<open>
  The bot, with the engine as its Player, after \<^verbatim>\<open>/join\<close> in guild \<open>g\<close> and two messages
  there.
\<close>

definition twoQueued :: "engine zundacord" where
  "twoQueued =
     queueMessage specPlayer (\<lambda>cp. False)
       (queueMessage specPlayer (\<lambda>cp. False) (joinedApp specPlayer)
          \<lparr>gm_guildId = ''g'', gm_content = js ''one''\<rparr> 3)
       \<lparr>gm_guildId = ''g'', gm_content = js ''two''\<rparr> 3"

text \<open>
  The same bot after a true disconnect of guild \<open>g\<close> and a second \<^verbatim>\<open>/join\<close> there.
\<close>

definition rejoined :: "engine zundacord" where
  "rejoined =
     fst (slashJoin specPlayer (onDisconnected twoQueued ''g'' Rejected)
            (joinRequest ''g'' ''u'' ''c''))"

section \<open>Properties of the normaliser\<close>

lemma subseq_replaceFirstUrl: "subseq (replaceFirstUrl s) s"
proof (induction s)
  case Nil show ?case by simp
next
  case (Cons c cs)
  show ?case
  proof (cases "matchUrl (c # cs)")
    case None
    with Cons show ?thesis by simp
  next
    case (Some n)
    have "subseq (drop n (c # cs)) (c # cs)"
      by (metis append_take_drop_id list_emb_append2 subseq_order.order_refl)
    with Some show ?thesis by simp
  qed
qed

lemma subseq_drop: "subseq (drop n xs) xs"
  by (metis append_take_drop_id list_emb_append2 subseq_order.order_refl)

lemma subseq_replaceAllEmoji: "subseq (replaceAllEmoji s) s"
proof (induction s rule: replaceAllEmoji.induct)
  case 1 show ?case by simp
next
  case (2 c cs)
  show ?case
  proof (cases "matchEmoji (c # cs)")
    case None
    with 2 show ?thesis by simp
  next
    case (Some n)
    with 2 have "subseq (replaceAllEmoji (drop n (c # cs))) (drop n (c # cs))" by simp
    then have "subseq (replaceAllEmoji (drop n (c # cs))) (c # cs)"
      using subseq_drop subseq_order.order_trans by blast
    with Some show ?thesis by simp
  qed
qed

lemma subseq_stripUnreadable: "subseq (stripUnreadable uni s) s"
  by (induction uni s rule: stripUnreadable.induct) auto

lemma subseq_dropWhile: "subseq (dropWhile P xs) xs"
  by (induction xs) auto

lemma subseq_rev: "subseq xs ys \<Longrightarrow> subseq (rev xs) (rev ys)"
proof (induction rule: list_emb.induct)
  case (list_emb_Nil ys)
  show ?case by simp
next
  case (list_emb_Cons xs ys y)
  then show ?case by (simp add: subseq_rev_drop_many)
next
  case (list_emb_Cons2 x y xs ys)
  then show ?case by (simp add: list_emb_append_mono)
qed

lemma subseq_trim: "subseq (trim s) s"
proof -
  have "subseq (dropWhile isWhiteSpace (rev (dropWhile isWhiteSpace s))) (rev (dropWhile isWhiteSpace s))"
    by (rule subseq_dropWhile)
  then have "subseq (trim s) (dropWhile isWhiteSpace s)"
    using subseq_rev by (fastforce simp: trim_def)
  then show ?thesis
    using subseq_dropWhile subseq_order.order_trans by blast
qed

lemma subseq_getReadableString: "subseq (getReadableString uni s) s"
  unfolding getReadableString_def
  by (meson subseq_trim subseq_stripUnreadable subseq_replaceAllEmoji subseq_replaceFirstUrl
      subseq_order.order_trans)

lemma takeWhile_app_stop:
  "\<forall>x\<in>set xs. P x \<Longrightarrow> \<not> P y \<Longrightarrow> takeWhile P (xs @ y # ys) = xs"
  by (induction xs) auto

lemma dropWhile_app_stop:
  "\<forall>x\<in>set xs. P x \<Longrightarrow> \<not> P y \<Longrightarrow> dropWhile P (xs @ y # ys) = y # ys"
  by (induction xs) auto

lemma matchUrl_not_h: "c \<noteq> 0x68 \<Longrightarrow> matchUrl (c # cs) = None"
  by (simp add: matchUrl_def matchScheme_def js_def)

lemma replaceFirstUrl_skip:
  "0x68 \<notin> set t \<Longrightarrow> replaceFirstUrl (t @ s) = t @ replaceFirstUrl s"
  by (induction t) (auto simp: matchUrl_not_h)

lemma matchScheme_colon:
  "matchScheme s \<noteq> None \<Longrightarrow> prefix (js ''://'') (dropWhile (\<lambda>c. c \<noteq> 0x3A) s)"
  by (auto simp: matchScheme_def js_def prefix_def split: if_splits)

lemma matchUrl_in_name:
  assumes "0x3A \<notin> set n" "d \<noteq> 0x2F"
  shows "matchUrl (n @ 0x3A # d # s) = None"
proof -
  have "dropWhile (\<lambda>c. c \<noteq> 0x3A) (n @ 0x3A # d # s) = 0x3A # d # s"
    using assms(1) by (intro dropWhile_app_stop) auto
  then have "\<not> prefix (js ''://'') (dropWhile (\<lambda>c. c \<noteq> 0x3A) (n @ 0x3A # d # s))"
    using assms(2) by (simp add: js_def)
  then have "matchScheme (n @ 0x3A # d # s) = None"
    using matchScheme_colon by blast
  then show ?thesis
    by (simp add: matchUrl_def)
qed

lemma replaceFirstUrl_name:
  "0x3A \<notin> set n \<Longrightarrow> d \<noteq> 0x2F \<Longrightarrow>
   replaceFirstUrl (n @ 0x3A # d # s) = n @ replaceFirstUrl (0x3A # d # s)"
proof (induction n)
  case Nil show ?case by simp
next
  case (Cons c n)
  have "matchUrl ((c # n) @ 0x3A # d # s) = None"
    using Cons.prems by (intro matchUrl_in_name) auto
  with Cons show ?case by simp
qed

lemma digit_not: "isDigit d \<Longrightarrow> d \<noteq> 0x2F \<and> d \<noteq> 0x68 \<and> d \<noteq> 0x3E \<and> \<not> isWhiteSpace d"
  unfolding isDigit_def isWhiteSpace_def word_le_nat_alt
  by (cases "unat d = 0xA0") auto

lemma replaceFirstUrl_emoji:
  assumes "validPiece uni (Emoji an name digits)"
  shows "replaceFirstUrl (mkEmoji an name digits @ rest) = mkEmoji an name digits @ replaceFirstUrl rest"
proof -
  from assms obtain d ds where ds: "digits = d # ds" and d: "isDigit d"
    by (cases digits) auto
  have nc: "0x3A \<notin> set name"
    using assms by (auto simp: list_all_iff)
  have nh: "0x68 \<notin> set digits"
    using assms digit_not by (auto simp: list_all_iff)
  have 1: "replaceFirstUrl (name @ 0x3A # d # ds @ 0x3E # rest)
         = name @ replaceFirstUrl (0x3A # d # ds @ 0x3E # rest)"
    using nc d digit_not by (intro replaceFirstUrl_name) auto
  have 2: "replaceFirstUrl (0x3A # digits @ 0x3E # rest) = 0x3A # digits @ 0x3E # replaceFirstUrl rest"
    using replaceFirstUrl_skip [OF nh, of "0x3E # rest"] by (simp add: matchUrl_not_h)
  show ?thesis
    using 1 2 ds
    by (cases an) (simp_all add: mkEmoji_def js_def matchUrl_not_h)
qed

lemma replaceFirstUrl_at:
  "(\<And>k. k < i \<Longrightarrow> matchUrl (drop k s) = None) \<Longrightarrow> matchUrl (drop i s) = Some n
   \<Longrightarrow> replaceFirstUrl s = take i s @ drop (i + n) s"
proof (induction i arbitrary: s)
  case 0
  then show ?case
    by (cases s) (auto simp: matchUrl_def matchScheme_def js_def)
next
  case (Suc i)
  from Suc.prems(2) obtain c cs where s: "s = c # cs"
    by (cases s) (auto simp: matchUrl_def matchScheme_def js_def)
  have none: "matchUrl (c # cs) = None"
    using Suc.prems(1) [of 0] s by simp
  have "replaceFirstUrl cs = take i cs @ drop (i + n) cs"
  proof (rule Suc.IH)
    fix k assume "k < i"
    then show "matchUrl (drop k cs) = None"
      using Suc.prems(1) [of "Suc k"] s by simp
  next
    show "matchUrl (drop i cs) = Some n"
      using Suc.prems(2) s by simp
  qed
  then show ?case
    using s none by simp
qed

lemma codePoints_Cons: "\<not> isHighSurrogate h \<Longrightarrow> codePoints (h # xs) = unat h # codePoints xs"
  by (cases xs) auto

lemma readable_not_high: "isReadable uni (unat h) \<Longrightarrow> \<not> isHighSurrogate h"
  by (auto simp: isReadable_def isHighSurrogate_def word_le_nat_alt split: if_splits)

lemma codePoints_strip:
  "codePoints (stripUnreadable uni s) = filter (isReadable uni) (codePoints s)"
  by (induction uni s rule: stripUnreadable.induct)
     (auto simp: codePoints_Cons readable_not_high)

section \<open>Properties of the engine\<close>

lemmas engine_defs = enqueue_def skipCurrent_def synthesisSucceeded_def synthesisFailed_def
  streamCompleted_def streamErrored_def pullNext_def leave_def Let_def

lemma step_ok: "engine_ok e \<Longrightarrow> engine_ok (step ev e)"
  by (cases ev) (auto simp: engine_ok_def engine_defs split: option.splits list.splits)

lemma step_nextId: "nextId (step ev e) = (if isEnqueue ev then Suc (nextId e) else nextId e)"
  by (cases ev) (auto simp: engine_defs split: option.splits list.splits)

lemma step_acct:
  "engine_ok e \<Longrightarrow>
   map fst (finished (step ev e)) @ pending (step ev e)
     = map fst (finished e) @ pending e @ enqueuedFrom (nextId e) [ev]"
  by (cases ev)
     (auto simp: engine_ok_def engine_defs pending_def currentList_def
           split: option.splits list.splits)

lemma step_streamed:
  "engine_ok e \<Longrightarrow> subseq (streamed e) (map fst (finished e) @ playingList e) \<Longrightarrow>
   subseq (streamed (step ev e)) (map fst (finished (step ev e)) @ playingList (step ev e))"
  by (cases ev)
     (auto simp: engine_ok_def engine_defs playingList_def currentList_def subseq_rev_drop_many
           split: option.splits list.splits)

lemma step_outcomes:
  "snd ` set (finished (step ev e)) \<subseteq> snd ` set (finished e) \<union> outcomeOf ev"
  by (cases ev) (auto simp: engine_defs split: option.splits list.splits)

lemma step_live: "live e \<Longrightarrow> live (step ev e)"
  by (cases ev) (auto simp: live_def engine_ok_def engine_defs split: option.splits list.splits)

lemma pullNext_work: "workLeft (pullNext e) = 2 * length (queue e)"
  by (cases "queue e") (simp_all add: pullNext_def workLeft_def)

lemma leave_queue: "queue (leave oc e) = queue e"
  by (simp add: leave_def split: option.splits)

lemma step_work: "workLeft (step ev e) \<le> workLeft e + (if isEnqueue ev then 2 else 0)"
proof (cases ev)
  case (Enqueue u)
  have "workLeft (enqueue u e) \<le> workLeft e + 2"
    by (simp add: enqueue_def Let_def pullNext_work) (simp add: workLeft_def)
  with Enqueue show ?thesis by simp
next
  case SkipCurrent
  have "workLeft (skipCurrent e) \<le> workLeft e"
    by (simp add: skipCurrent_def pullNext_work leave_queue) (auto simp: workLeft_def)
  with SkipCurrent show ?thesis by simp
next
  case (SynthesisSucceeded i)
  have "workLeft (synthesisSucceeded i e) \<le> workLeft e"
    by (auto simp: synthesisSucceeded_def workLeft_def split: option.splits)
  with SynthesisSucceeded show ?thesis by simp
next
  case (SynthesisFailed i)
  have "workLeft (synthesisFailed i e) \<le> workLeft e"
    by (auto simp: synthesisFailed_def pullNext_work leave_queue split: option.splits)
       (auto simp: workLeft_def)
  with SynthesisFailed show ?thesis by simp
next
  case StreamCompleted
  have "workLeft (streamCompleted e) \<le> workLeft e"
    by (simp add: streamCompleted_def pullNext_work leave_queue) (auto simp: workLeft_def)
  with StreamCompleted show ?thesis by simp
next
  case StreamErrored
  have "workLeft (streamErrored e) \<le> workLeft e"
    by (simp add: streamErrored_def pullNext_work leave_queue) (auto simp: workLeft_def)
  with StreamErrored show ?thesis by simp
qed

text \<open>Runs.\<close>

lemma run_Nil: "run [] e = e"
  by (simp add: run_def)

lemma run_Cons: "run (ev # evs) e = run evs (step ev e)"
  by (simp add: run_def)

lemma run_append: "run (xs @ ys) e = run ys (run xs e)"
  by (simp add: run_def)

lemma run_ok: "engine_ok e \<Longrightarrow> engine_ok (run evs e)"
  by (induction evs arbitrary: e) (simp_all add: run_Nil run_Cons step_ok)

lemma run_live: "live e \<Longrightarrow> live (run evs e)"
  by (induction evs arbitrary: e) (simp_all add: run_Nil run_Cons step_live)

lemma run_nextId: "nextId (run evs e) = nextId e + length (filter isEnqueue evs)"
  by (induction evs arbitrary: e) (simp_all add: run_Nil run_Cons step_nextId)

lemma enqueuedFrom_Cons:
  "enqueuedFrom n (ev # evs)
     = enqueuedFrom n [ev] @ enqueuedFrom (if isEnqueue ev then Suc n else n) evs"
  by (cases ev) simp_all

lemma run_acct:
  "engine_ok e \<Longrightarrow>
   map fst (finished (run evs e)) @ pending (run evs e)
     = map fst (finished e) @ pending e @ enqueuedFrom (nextId e) evs"
proof (induction evs arbitrary: e)
  case Nil
  show ?case by (simp add: run_Nil)
next
  case (Cons ev evs)
  have "map fst (finished (run evs (step ev e))) @ pending (run evs (step ev e))
      = map fst (finished (step ev e)) @ pending (step ev e)
        @ enqueuedFrom (nextId (step ev e)) evs"
    using Cons.prems by (intro Cons.IH step_ok)
  also have "\<dots> = (map fst (finished e) @ pending e @ enqueuedFrom (nextId e) [ev])
        @ enqueuedFrom (nextId (step ev e)) evs"
    using step_acct [OF Cons.prems, of ev] by simp
  finally show ?case
    unfolding run_Cons enqueuedFrom_Cons [of "nextId e" ev evs] step_nextId by simp
qed

lemma run_streamed:
  "engine_ok e \<Longrightarrow> subseq (streamed e) (map fst (finished e) @ playingList e) \<Longrightarrow>
   subseq (streamed (run evs e)) (map fst (finished (run evs e)) @ playingList (run evs e))"
  by (induction evs arbitrary: e) (simp_all add: run_Nil run_Cons step_ok step_streamed)

lemma run_outcomes:
  "snd ` set (finished (run evs e)) \<subseteq> snd ` set (finished e) \<union> (\<Union>ev\<in>set evs. outcomeOf ev)"
proof (induction evs arbitrary: e)
  case Nil
  show ?case by (simp add: run_Nil)
next
  case (Cons ev evs)
  have "snd ` set (finished (run evs (step ev e)))
      \<subseteq> snd ` set (finished (step ev e)) \<union> (\<Union>ev\<in>set evs. outcomeOf ev)"
    by (rule Cons.IH)
  then show ?case
    using step_outcomes [of ev e] unfolding run_Cons by auto
qed

lemma run_work: "workLeft (run evs e) \<le> workLeft e + 2 * length evs"
proof (induction evs arbitrary: e)
  case Nil
  show ?case by (simp add: run_Nil)
next
  case (Cons ev evs)
  have "workLeft (run evs (step ev e)) \<le> workLeft (step ev e) + 2 * length evs"
    by (rule Cons.IH)
  moreover have "workLeft (step ev e) \<le> workLeft e + 2"
    using step_work [of ev e] by (simp split: if_splits)
  ultimately show ?case
    unfolding run_Cons by simp
qed

lemma enqueuedFrom_append:
  "enqueuedFrom n (xs @ ys) = enqueuedFrom n xs @ enqueuedFrom (n + length (filter isEnqueue xs)) ys"
proof (induction xs arbitrary: n)
  case Nil show ?case by simp
next
  case (Cons ev xs)
  show ?case
    by (cases ev) (simp_all add: Cons.IH)
qed

lemma enqueuedFrom_none: "list_all (\<lambda>ev. \<not> isEnqueue ev) evs \<Longrightarrow> enqueuedFrom n evs = []"
proof (induction evs)
  case Nil show ?case by simp
next
  case (Cons ev evs)
  then show ?case by (cases ev) simp_all
qed

lemma enqueuedFrom_ids:
  "map fst (enqueuedFrom n evs) = [n ..< n + length (filter isEnqueue evs)]"
proof (induction evs arbitrary: n)
  case Nil show ?case by simp
next
  case (Cons ev evs)
  show ?case
    by (cases ev) (simp_all add: Cons.IH upt_rec)
qed

lemma enqueuedFrom_distinct: "distinct (enqueuedFrom n evs)"
proof -
  have "distinct (map fst (enqueuedFrom n evs))"
    by (simp add: enqueuedFrom_ids)
  then show ?thesis
    by (rule distinct_map [THEN iffD1, THEN conjunct1])
qed


text \<open>The answers of a working service and sink.\<close>

lemma respond_quiet: "list_all (\<lambda>ev. isClean ev \<and> \<not> isEnqueue ev) (respond e)"
  by (simp add: respond_def split: engine_state.splits option.splits)

lemma settle_run:
  "\<exists>tr. settle n e = run tr e \<and> list_all (\<lambda>ev. isClean ev \<and> \<not> isEnqueue ev) tr"
proof (induction n arbitrary: e)
  case 0
  show ?case
    by (rule exI [of _ "[]"]) (simp add: run_Nil)
next
  case (Suc n)
  obtain tr where tr: "settle n (run (respond e) e) = run tr (run (respond e) e)"
      and q: "list_all (\<lambda>ev. isClean ev \<and> \<not> isEnqueue ev) tr"
    using Suc.IH by blast
  show ?case
    using tr q respond_quiet [of e]
    by (intro exI [of _ "respond e @ tr"]) (simp add: run_append)
qed

lemma respond_work:
  assumes "live e"
  shows "workLeft (run (respond e) e) = workLeft e - 1"
proof (cases "state e")
  case Idle
  with assms show ?thesis
    by (simp add: respond_def run_Nil workLeft_def live_def)
next
  case Synthesizing
  with assms obtain x where x: "current e = Some x"
    by (auto simp: live_def engine_ok_def)
  from assms obtain sink where s: "outputBinding e = Some sink"
    by (auto simp: live_def)
  show ?thesis
    using Synthesizing x s
    by (simp add: respond_def run_Cons run_Nil synthesisSucceeded_def workLeft_def)
next
  case Playing
  then show ?thesis
    by (simp add: respond_def run_Cons run_Nil streamCompleted_def pullNext_work leave_queue)
       (simp add: workLeft_def)
next
  case Draining
  with assms show ?thesis
    by (simp add: live_def)
qed

lemma rest_when_done: "live e \<Longrightarrow> workLeft e = 0 \<Longrightarrow> atRest e"
  by (cases "state e") (auto simp: live_def engine_ok_def workLeft_def atRest_def)

lemma settle_rest: "live e \<Longrightarrow> workLeft e \<le> n \<Longrightarrow> atRest (settle n e)"
proof (induction n arbitrary: e)
  case 0
  then show ?case by (simp add: rest_when_done)
next
  case (Suc n)
  have "live (run (respond e) e)"
    using Suc.prems(1) by (rule run_live)
  moreover have "workLeft (run (respond e) e) \<le> n"
    using respond_work [OF Suc.prems(1)] Suc.prems(2) by simp
  ultimately show ?case
    using Suc.IH by simp
qed

text \<open>Splitting a log by outcome.\<close>

lemma split_by_outcome:
  assumes "distinct (map fst xs)" and "\<forall>x\<in>set xs. P (snd x) \<noteq> Q (snd x)"
  shows "map fst (filter (\<lambda>x. P (snd x)) xs)
       = filter (\<lambda>a. a \<notin> set (map fst (filter (\<lambda>x. Q (snd x)) xs))) (map fst xs)"
  using assms
proof (induction xs)
  case Nil
  show ?case by simp
next
  case (Cons x xs)
  have nin: "fst x \<notin> fst ` set xs"
    using Cons.prems(1) by simp
  have IH: "map fst (filter (\<lambda>x. P (snd x)) xs)
       = filter (\<lambda>a. a \<notin> set (map fst (filter (\<lambda>x. Q (snd x)) xs))) (map fst xs)"
    using Cons by simp
  show ?case
  proof (cases "P (snd x)")
    case True
    then have nq: "\<not> Q (snd x)"
      using Cons.prems(2) by auto
    have "set (map fst (filter (\<lambda>x. Q (snd x)) xs)) \<subseteq> fst ` set xs"
      by auto
    then have "fst x \<notin> set (map fst (filter (\<lambda>x. Q (snd x)) xs))"
      using nin by blast
    then show ?thesis
      using True nq IH by simp
  next
    case False
    then have q: "Q (snd x)"
      using Cons.prems(2) by auto
    have "filter (\<lambda>a. a \<notin> insert (fst x) (set (map fst (filter (\<lambda>x. Q (snd x)) xs)))) (map fst xs)
        = filter (\<lambda>a. a \<notin> set (map fst (filter (\<lambda>x. Q (snd x)) xs))) (map fst xs)"
    proof (rule filter_cong [OF refl])
      fix a
      assume "a \<in> set (map fst xs)"
      then have "a \<in> fst ` set xs"
        by simp
      then have "a \<noteq> fst x"
        using nin by blast
      then show "(a \<notin> insert (fst x) (set (map fst (filter (\<lambda>x. Q (snd x)) xs))))
               = (a \<notin> set (map fst (filter (\<lambda>x. Q (snd x)) xs)))"
        by simp
    qed
    then show ?thesis
      using False q IH by simp
  qed
qed

lemma filter_all: "\<forall>x\<in>set xs. P x \<Longrightarrow> filter P xs = xs"
  by (induction xs) auto

section \<open>Evaluation of closed terms\<close>

lemmas string_eval = js_def getReadableString_def trim_def isReadable_def asciiReadable_def
  isHighSurrogate_def isLowSurrogate_def matchEmoji_def matchEmojiHead_def matchUrl_def
  matchScheme_def isDigit_def isWhiteSpace_def mkEmoji_def mkUrl_def Let_def

lemmas app_eval = joinedApp_def joinRequest_def newZundacord_def slashJoin_def mkEmbed_def
  zundaEmbed_def queueMessage_def onMessageCreate_def inGuild_def onDisconnected_def
  slashSkip_def messageContextReadThisMessage_def recordingPlayer_def Let_def

lemmas engine_eval = specPlayer_def newEngine_def boundEngine_def rebindOutput_def enqueue_def
  skipCurrent_def pullNext_def leave_def pending_def currentList_def synthesisSucceeded_def
  synthesisFailed_def streamCompleted_def streamErrored_def shutdown_def engine_ok_def
  respond_def run_def atRest_def withOutcome_def ended_def delivered_def completed_def
  skipped_def

lemma recording_queue: "Player_queueMessage recordingPlayer u p = p @ [u]"
  by (simp add: recordingPlayer_def)

lemma boundEngine_facts:
  "engine_ok (boundEngine vc)" "live (boundEngine vc)" "finished (boundEngine vc) = []"
  "pending (boundEngine vc) = []" "nextId (boundEngine vc) = 0" "streamed (boundEngine vc) = []"
  "workLeft (boundEngine vc) = 0" "playingList (boundEngine vc) = []"
  by (simp_all add: boundEngine_def rebindOutput_def newEngine_def pullNext_def engine_ok_def
        live_def pending_def currentList_def workLeft_def playingList_def)

lemma enqueue_appends:
  "engine_ok e \<Longrightarrow>
   pending (enqueue u e) = pending e @ [(nextId e, u)] \<and> finished (enqueue u e) = finished e \<and>
   streamed (enqueue u e) = streamed e \<and> engine_ok (enqueue u e)"
  by (auto simp: engine_ok_def enqueue_def pullNext_def pending_def currentList_def Let_def
        split: list.splits option.splits)

section \<open>Messages as sequences of pieces\<close>

lemma ws_not: "isWhiteSpace c \<Longrightarrow> c \<noteq> 0x68 \<and> c \<noteq> 0x3C \<and> \<not> isHighSurrogate c"
  unfolding isWhiteSpace_def isHighSurrogate_def word_le_nat_alt
  by (cases "unat c = 0xFEFF") auto

lemma high_not:
  assumes "isHighSurrogate c"
  shows "c \<noteq> 0x68 \<and> c \<noteq> 0x3C \<and> \<not> isWhiteSpace c"
proof -
  have "0xD800 \<le> unat c" "unat c \<le> 0xDBFF"
    using assms by (simp_all add: isHighSurrogate_def word_le_nat_alt)
  then show ?thesis
    unfolding isWhiteSpace_def word_le_nat_alt by auto
qed

lemma low_not:
  assumes "isLowSurrogate c"
  shows "c \<noteq> 0x68 \<and> c \<noteq> 0x3C \<and> \<not> isWhiteSpace c"
proof -
  have "0xDC00 \<le> unat c" "unat c \<le> 0xDFFF"
    using assms by (simp_all add: isLowSurrogate_def word_le_nat_alt)
  then show ?thesis
    unfolding isWhiteSpace_def word_le_nat_alt by auto
qed

lemma symbol_not:
  assumes "(0x80 :: jschar) \<le> c"
  shows "c \<noteq> 0x68 \<and> c \<noteq> 0x3C"
proof -
  have "0x80 \<le> unat c"
    using assms by (simp add: word_le_nat_alt)
  then show ?thesis by auto
qed

lemma word_char:
  assumes "c < (0x80 :: jschar)" "asciiReadable (unat c)" "c \<noteq> 0x20"
  shows "\<not> isWhiteSpace c \<and> c \<noteq> 0x3C \<and> \<not> isHighSurrogate c \<and> isReadable uni (unat c)"
proof -
  have u: "unat c < 0x80"
    using assms(1) by (simp add: word_less_nat_alt)
  have n: "unat c \<noteq> 0x20"
    using assms(3) by (simp add: word_unat_eq_iff)
  have ws: "\<not> isWhiteSpace c"
    using u n assms(2) unfolding isWhiteSpace_def asciiReadable_def word_le_nat_alt
    by (cases "unat c = 0xA0") auto
  have lt: "c \<noteq> 0x3C"
    using assms(2) by (auto simp: asciiReadable_def)
  have hi: "\<not> isHighSurrogate c"
    using u by (simp add: isHighSurrogate_def word_le_nat_alt)
  have rd: "isReadable uni (unat c)"
    using u assms(2) by (simp add: isReadable_def)
  show ?thesis
    using ws lt hi rd by simp
qed

lemma word_chars:
  assumes "validPiece uni (Word w)"
  shows "list_all (\<lambda>c. \<not> isWhiteSpace c) w" "0x3C \<notin> set w"
    "list_all (\<lambda>c. \<not> isHighSurrogate c \<and> isReadable uni (unat c)) w"
  using assms word_char [of _ uni] by (auto simp: list_all_iff)

lemma replaceFirstUrl_pieces:
  "list_all (validPiece uni) ps \<Longrightarrow> list_all frontPiece ps \<Longrightarrow>
   replaceFirstUrl (concat (map render ps) @ rest) = concat (map render ps) @ replaceFirstUrl rest"
proof (induction ps)
  case Nil show ?case by simp
next
  case (Cons p ps)
  then have IH: "replaceFirstUrl (concat (map render ps) @ rest)
               = concat (map render ps) @ replaceFirstUrl rest"
    by simp
  show ?case
  proof (cases p)
    case (Space c)
    then have "c \<noteq> 0x68" using Cons.prems ws_not by simp
    then show ?thesis using Space IH by (simp add: matchUrl_not_h)
  next
    case (Emoji an name digits)
    then have "validPiece uni (Emoji an name digits)" using Cons.prems by simp
    then show ?thesis using Emoji IH by (simp add: replaceFirstUrl_emoji)
  next
    case (Url sec body)
    then show ?thesis using Cons.prems by simp
  next
    case (Symbol c)
    then have "c \<noteq> 0x68" using Cons.prems symbol_not by simp
    then show ?thesis using Symbol IH by (simp add: matchUrl_not_h)
  next
    case (Pictograph h l)
    then have "h \<noteq> 0x68" "l \<noteq> 0x68" using Cons.prems high_not low_not by simp_all
    then show ?thesis using Pictograph IH by (simp add: matchUrl_not_h)
  next
    case (Word w)
    then have "0x68 \<notin> set w" using Cons.prems by simp
    then show ?thesis using Word IH by (simp add: replaceFirstUrl_skip)
  qed
qed

lemma drop_app_len: "drop (length p + m) (p @ xs) = drop m xs"
  by simp

lemma replaceFirstUrl_url:
  assumes "validPiece uni (Url sec body)"
  shows "replaceFirstUrl (mkUrl sec body @ rest) = dropWhile (\<lambda>c. \<not> isWhiteSpace c) rest"
proof -
  let ?nw = "\<lambda>c. \<not> isWhiteSpace c"
  obtain b bs where b: "body = b # bs" and nb: "?nw b"
    using assms by (cases body) auto
  have all: "\<forall>x\<in>set body. ?nw x"
    using assms by (auto simp: list_all_iff)
  have tw: "takeWhile ?nw (body @ rest) = body @ takeWhile ?nw rest"
    using all by (simp add: takeWhile_append2)
  have dr: "drop (length (takeWhile ?nw rest)) rest = dropWhile ?nw rest"
    by (simp add: dropWhile_eq_drop)
  have m: "matchUrl (mkUrl sec body @ rest)
         = Some (length (mkUrl sec []) + length (body @ takeWhile ?nw rest))"
    using tw b nb
    by (cases sec) (simp_all add: mkUrl_def js_def matchUrl_def matchScheme_def Let_def)
  have "drop (length (mkUrl sec []) + length (body @ takeWhile ?nw rest))
          (mkUrl sec [] @ (body @ rest)) = drop (length (body @ takeWhile ?nw rest)) (body @ rest)"
    by (rule drop_app_len)
  then have "drop (length (mkUrl sec []) + length (body @ takeWhile ?nw rest))
          (mkUrl sec [] @ (body @ rest)) = drop (length (takeWhile ?nw rest)) rest"
    by simp
  moreover have "mkUrl sec [] @ (body @ rest) = mkUrl sec body @ rest"
    by (simp add: mkUrl_def)
  moreover obtain c cs where "mkUrl sec body @ rest = c # cs"
    by (cases sec) (simp_all add: mkUrl_def js_def)
  ultimately show ?thesis
    using m dr by simp
qed





lemma dropWhile_startsWithSpace:
  "list_all (validPiece uni) ps \<Longrightarrow> startsWithSpace ps \<Longrightarrow>
   dropWhile (\<lambda>c. \<not> isWhiteSpace c) (concat (map render ps)) = concat (map render ps)"
proof (cases ps)
  case Nil
  then show ?thesis by simp
next
  case (Cons p qs)
  assume "list_all (validPiece uni) ps" "startsWithSpace ps"
  then obtain c where "p = Space c" "isWhiteSpace c"
    using Cons by (cases p) simp_all
  then show ?thesis using Cons by simp
qed

lemma matchEmoji_not_lt: "c \<noteq> 0x3C \<Longrightarrow> matchEmoji (c # cs) = None"
  by (simp add: matchEmoji_def matchEmojiHead_def js_def)

lemma replaceAllEmoji_skip:
  "0x3C \<notin> set t \<Longrightarrow> replaceAllEmoji (t @ s) = t @ replaceAllEmoji s"
  by (induction t) (auto simp: matchEmoji_not_lt)

lemma matchEmoji_mk:
  assumes "name \<noteq> []" "0x3A \<notin> set name" "digits \<noteq> []" "list_all isDigit digits"
  shows "matchEmoji (mkEmoji an name digits @ rest) = Some (length (mkEmoji an name digits))"
proof -
  have dg: "\<forall>x\<in>set digits. isDigit x"
    using assms(4) by (simp add: list_all_iff)
  have n: "takeWhile (\<lambda>c. c \<noteq> 0x3A) (name @ 0x3A # digits @ 0x3E # rest) = name"
    using assms(2) by (intro takeWhile_app_stop) auto
  have n': "dropWhile (\<lambda>c. c \<noteq> 0x3A) (name @ 0x3A # digits @ 0x3E # rest) = 0x3A # digits @ 0x3E # rest"
    using assms(2) by (intro dropWhile_app_stop) auto
  have d: "takeWhile isDigit (digits @ 0x3E # rest) = digits"
    using dg by (intro takeWhile_app_stop) (auto simp: isDigit_def)
  have d': "dropWhile isDigit (digits @ 0x3E # rest) = 0x3E # rest"
    using dg by (intro dropWhile_app_stop) (auto simp: isDigit_def)
  show ?thesis
    using assms(1,3) n n' d d'
    by (cases an) (simp_all add: matchEmoji_def matchEmojiHead_def mkEmoji_def js_def Let_def)
qed

lemma replaceAllEmoji_mk:
  assumes "name \<noteq> []" "0x3A \<notin> set name" "digits \<noteq> []" "list_all isDigit digits"
  shows "replaceAllEmoji (mkEmoji an name digits @ rest) = replaceAllEmoji rest"
proof -
  obtain c cs where e: "mkEmoji an name digits = c # cs"
    by (cases "mkEmoji an name digits") (auto simp: mkEmoji_def js_def)
  have "replaceAllEmoji ((c # cs) @ rest) = replaceAllEmoji (drop (length (c # cs)) ((c # cs) @ rest))"
    using matchEmoji_mk [OF assms, of an rest] e by simp
  then show ?thesis
    using e by simp
qed

lemma replaceAllEmoji_pieces:
  "list_all (validPiece uni) ps \<Longrightarrow> list_all (\<lambda>p. \<not> isUrl p) ps \<Longrightarrow>
   replaceAllEmoji (concat (map render ps)) = concat (map render (filter (\<lambda>p. \<not> isEmoji p) ps))"
proof (induction ps)
  case Nil show ?case by simp
next
  case (Cons p ps)
  then have IH: "replaceAllEmoji (concat (map render ps))
               = concat (map render (filter (\<lambda>p. \<not> isEmoji p) ps))"
    by simp
  show ?case
  proof (cases p)
    case (Space c)
    then have "c \<noteq> 0x3C" using Cons.prems ws_not by simp
    then show ?thesis using Space IH by (simp add: matchEmoji_not_lt)
  next
    case (Emoji an name digits)
    then have "replaceAllEmoji (render p @ concat (map render ps)) = replaceAllEmoji (concat (map render ps))"
      using Cons.prems by (auto simp: list_all_iff intro!: replaceAllEmoji_mk)
    then show ?thesis using Emoji IH by simp
  next
    case (Url sec body)
    then show ?thesis using Cons.prems by simp
  next
    case (Symbol c)
    then have "c \<noteq> 0x3C" using Cons.prems symbol_not by simp
    then show ?thesis using Symbol IH by (simp add: matchEmoji_not_lt)
  next
    case (Pictograph h l)
    then have "h \<noteq> 0x3C" "l \<noteq> 0x3C" using Cons.prems high_not low_not by simp_all
    then show ?thesis using Pictograph IH by (simp add: matchEmoji_not_lt)
  next
    case (Word w)
    then have "0x3C \<notin> set w" using Cons.prems word_chars(2) by simp
    then show ?thesis using Word IH by (simp add: replaceAllEmoji_skip)
  qed
qed

lemma stripUnreadable_single:
  "\<not> isHighSurrogate c \<Longrightarrow>
   stripUnreadable uni (c # rest) = (if isReadable uni (unat c) then [c] else []) @ stripUnreadable uni rest"
  by (cases rest) simp_all

lemma stripUnreadable_word:
  "list_all (\<lambda>c. \<not> isHighSurrogate c \<and> isReadable uni (unat c)) w \<Longrightarrow>
   stripUnreadable uni (w @ rest) = w @ stripUnreadable uni rest"
  by (induction w) (simp_all add: stripUnreadable_single)

lemma strip_pieces:
  "list_all (validPiece uni) ps \<Longrightarrow> list_all (\<lambda>p. \<not> isUrl p) ps \<Longrightarrow> list_all (\<lambda>p. \<not> isEmoji p) ps \<Longrightarrow>
   stripUnreadable uni (concat (map render ps)) = concat (map render (filter (kept uni) ps))"
proof (induction ps)
  case Nil show ?case by simp
next
  case (Cons p ps)
  then have IH: "stripUnreadable uni (concat (map render ps)) = concat (map render (filter (kept uni) ps))"
    by simp
  show ?case
  proof (cases p)
    case (Space c)
    then have "\<not> isHighSurrogate c" using Cons.prems ws_not by simp
    then show ?thesis using Space IH by (simp add: stripUnreadable_single)
  next
    case (Emoji an name digits)
    then show ?thesis using Cons.prems by simp
  next
    case (Url sec body)
    then show ?thesis using Cons.prems by simp
  next
    case (Symbol c)
    then have "\<not> isHighSurrogate c" "\<not> isReadable uni (unat c)" using Cons.prems by simp_all
    then show ?thesis using Symbol IH by (simp add: stripUnreadable_single)
  next
    case (Pictograph h l)
    then have "isHighSurrogate h" "isLowSurrogate l" "\<not> isReadable uni (codePoint h l)"
      using Cons.prems by simp_all
    then show ?thesis using Pictograph IH by simp
  next
    case (Word w)
    then have "list_all (\<lambda>c. \<not> isHighSurrogate c \<and> isReadable uni (unat c)) w"
      using Cons.prems word_chars(3) by simp
    then show ?thesis using Word IH by (simp add: stripUnreadable_word)
  qed
qed

text \<open>The last three steps on content without a URL, and the whole function.\<close>

lemma after_url_pieces:
  assumes "list_all (validPiece uni) ps" "list_all (\<lambda>p. \<not> isUrl p) ps"
  shows "trim (stripUnreadable uni (replaceAllEmoji (concat (map render ps))))
       = trim (concat (map render (filter (kept uni) ps)))"
proof -
  let ?qs = "filter (\<lambda>p. \<not> isEmoji p) ps"
  have "list_all (validPiece uni) ?qs" "list_all (\<lambda>p. \<not> isUrl p) ?qs" "list_all (\<lambda>p. \<not> isEmoji p) ?qs"
    using assms by (simp_all add: list_all_iff)
  then have "stripUnreadable uni (concat (map render ?qs)) = concat (map render (filter (kept uni) ?qs))"
    by (rule strip_pieces)
  moreover have "filter (kept uni) ?qs = filter (kept uni) ps"
  proof -
    have "kept uni p \<Longrightarrow> \<not> isEmoji p" for p
      by (cases p) simp_all
    then show ?thesis
      by (auto simp: filter_filter intro: filter_cong)
  qed
  ultimately show ?thesis
    unfolding replaceAllEmoji_pieces [OF assms] by simp
qed

lemma getReadableString_front:
  assumes "list_all (validPiece uni) ps" "list_all frontPiece ps"
  shows "getReadableString uni (concat (map render ps)) = trim (concat (map render (filter (kept uni) ps)))"
proof -
  have nu: "list_all (\<lambda>p. \<not> isUrl p) ps"
  proof -
    have "frontPiece p \<Longrightarrow> \<not> isUrl p" for p by (cases p) simp_all
    then show ?thesis using assms(2) by (auto simp: list_all_iff)
  qed
  have "replaceFirstUrl (concat (map render ps) @ []) = concat (map render ps) @ replaceFirstUrl []"
    using assms by (rule replaceFirstUrl_pieces)
  then have "replaceFirstUrl (concat (map render ps)) = concat (map render ps)"
    by simp
  then show ?thesis
    unfolding getReadableString_def using after_url_pieces [OF assms(1) nu] by simp
qed

lemma getReadableString_first_url:
  assumes vA: "list_all (validPiece uni) A" and fA: "list_all frontPiece A"
    and vu: "validPiece uni (Url sec body)"
    and vB: "list_all (validPiece uni) B" and nB: "list_all (\<lambda>p. \<not> isUrl p) B"
    and sB: "startsWithSpace B"
  shows "getReadableString uni (concat (map render (A @ Url sec body # B)))
       = trim (concat (map render (filter (kept uni) (A @ B))))"
proof -
  have nA: "list_all (\<lambda>p. \<not> isUrl p) A"
  proof -
    have "frontPiece p \<Longrightarrow> \<not> isUrl p" for p by (cases p) simp_all
    then show ?thesis using fA by (auto simp: list_all_iff)
  qed
  have "concat (map render (A @ Url sec body # B))
      = concat (map render A) @ (mkUrl sec body @ concat (map render B))"
    by simp
  then have "replaceFirstUrl (concat (map render (A @ Url sec body # B)))
      = concat (map render A) @ replaceFirstUrl (mkUrl sec body @ concat (map render B))"
    using replaceFirstUrl_pieces [OF vA fA] by simp
  also have "\<dots> = concat (map render A) @ concat (map render B)"
    unfolding replaceFirstUrl_url [OF vu] dropWhile_startsWithSpace [OF vB sB] by (rule refl)
  also have "\<dots> = concat (map render (A @ B))"
    by simp
  finally have r: "replaceFirstUrl (concat (map render (A @ Url sec body # B)))
      = concat (map render (A @ B))" .
  have "list_all (validPiece uni) (A @ B)" "list_all (\<lambda>p. \<not> isUrl p) (A @ B)"
    using vA vB nA nB by simp_all
  then have "trim (stripUnreadable uni (replaceAllEmoji (concat (map render (A @ B)))))
      = trim (concat (map render (filter (kept uni) (A @ B))))"
    by (rule after_url_pieces)
  then show ?thesis
    unfolding getReadableString_def r .
qed






text \<open>Every code point of the result is readable, whatever the input.\<close>

lemma codePoints_snoc:
  "\<not> isLowSurrogate c \<Longrightarrow> codePoints (xs @ [c]) = codePoints xs @ [unat c]"
  by (induction xs rule: codePoints.induct) simp_all

lemma ws_not_low: "isWhiteSpace c \<Longrightarrow> \<not> isLowSurrogate c"
  unfolding isWhiteSpace_def isLowSurrogate_def word_le_nat_alt
  by (cases "unat c = 0xFEFF") auto

lemma codePoints_dropWhile:
  "list_all Q (codePoints xs) \<Longrightarrow> list_all Q (codePoints (dropWhile isWhiteSpace xs))"
proof (induction xs)
  case Nil show ?case by simp
next
  case (Cons c xs)
  show ?case
  proof (cases "isWhiteSpace c")
    case True
    then have "codePoints (c # xs) = unat c # codePoints xs"
      using ws_not by (simp add: codePoints_Cons)
    with Cons True show ?thesis by simp
  next
    case False
    with Cons.prems show ?thesis by simp
  qed
qed

lemma codePoints_dropWhile_end:
  "list_all Q (codePoints xs) \<Longrightarrow> list_all Q (codePoints (rev (dropWhile isWhiteSpace (rev xs))))"
proof (induction xs rule: rev_induct)
  case Nil show ?case by simp
next
  case (snoc c xs)
  show ?case
  proof (cases "isWhiteSpace c")
    case True
    then have "codePoints (xs @ [c]) = codePoints xs @ [unat c]"
      using ws_not_low by (simp add: codePoints_snoc)
    with snoc True show ?thesis by simp
  next
    case False
    with snoc.prems show ?thesis by simp
  qed
qed

lemma getReadableString_readable:
  "list_all (isReadable uni) (codePoints (getReadableString uni s))"
proof -
  have "list_all (isReadable uni) (codePoints (stripUnreadable uni (replaceAllEmoji (replaceFirstUrl s))))"
    by (simp add: codePoints_strip list_all_iff)
  then have "list_all (isReadable uni)
      (codePoints (dropWhile isWhiteSpace (stripUnreadable uni (replaceAllEmoji (replaceFirstUrl s)))))"
    by (rule codePoints_dropWhile)
  then show ?thesis
    unfolding getReadableString_def trim_def by (rule codePoints_dropWhile_end)
qed

lemma strip_no_lt: "0x3C \<notin> set (stripUnreadable uni s)"
proof (induction uni s rule: stripUnreadable.induct)
  case (1 uni)
  show ?case by simp
next
  case (2 uni c)
  have "isReadable uni (unat c) \<Longrightarrow> c \<noteq> 0x3C"
    by (auto simp: isReadable_def asciiReadable_def)
  then show ?case by auto
next
  case (3 uni h l cs)
  have r: "isReadable uni (unat h) \<Longrightarrow> h \<noteq> 0x3C"
    by (auto simp: isReadable_def asciiReadable_def)
  show ?case
    using 3 r high_not low_not by (auto split: if_splits)
qed

lemma getReadableString_no_lt: "0x3C \<notin> set (getReadableString uni s)"
proof
  assume m: "0x3C \<in> set (getReadableString uni s)"
  have sub: "subseq (getReadableString uni s) (stripUnreadable uni (replaceAllEmoji (replaceFirstUrl s)))"
    unfolding getReadableString_def by (rule subseq_trim)
  obtain y where "y \<in> set (stripUnreadable uni (replaceAllEmoji (replaceFirstUrl s)))" "0x3C = y"
    using sub m by (rule list_emb_set)
  then show False
    using strip_no_lt by metis
qed

lemma no_emoji_left: "matchEmoji (drop k (getReadableString uni s)) = None"
proof (cases "drop k (getReadableString uni s)")
  case Nil
  then show ?thesis by (simp add: matchEmoji_def matchEmojiHead_def js_def)
next
  case (Cons c cs)
  then have "c \<in> set (getReadableString uni s)"
    by (metis in_set_dropD list.set_intros(1))
  then have "c \<noteq> 0x3C"
    using getReadableString_no_lt by metis
  then show ?thesis
    using Cons by (simp add: matchEmoji_not_lt)
qed

section \<open>What the engine handed to the output\<close>

lemma subseq_append_left:
  assumes "subseq (xs @ ys) zs"
  shows "subseq xs zs"
proof -
  have "subseq (xs @ []) (xs @ ys)"
    by (intro list_emb_append_mono) simp_all
  then have "subseq xs (xs @ ys)"
    by simp
  then show ?thesis
    using assms by (rule subseq_order.order_trans)
qed

lemma subseq_snoc_both: "subseq xs ys \<Longrightarrow> subseq (xs @ [x]) (ys @ [x])"
  by (simp add: list_emb_append_mono)

lemma pullNext_logs:
  "finished (pullNext e) = finished e" "streamed (pullNext e) = streamed e"
  "playingList (pullNext e) = []"
  by (simp_all add: pullNext_def playingList_def split: list.splits)

lemma leave_logs:
  "streamed (leave oc e) = streamed e"
  "finished (leave oc e) = finished e @ (case current e of None \<Rightarrow> [] | Some x \<Rightarrow> [(x, oc)])"
  by (simp_all add: leave_def split: option.splits)

lemma ended_pullNext_leave:
  "ended (pullNext (leave oc e))
     = ended e @ (if oc = Completed \<or> oc = Errored then currentList e else [])"
  by (simp add: ended_def withOutcome_def pullNext_logs leave_logs currentList_def
        split: option.splits)

lemma step_ended:
  assumes ok: "engine_ok e" and inv: "subseq (ended e @ playingList e) (streamed e)"
  shows "subseq (ended (step ev e) @ playingList (step ev e)) (streamed (step ev e))"
proof (cases ev)
  case (Enqueue u)
  have "ended (enqueue u e) = ended e" "streamed (enqueue u e) = streamed e"
    by (simp_all add: enqueue_def Let_def ended_def withOutcome_def pullNext_logs)
  moreover have "playingList (enqueue u e) = playingList e"
    by (auto simp: enqueue_def Let_def playingList_def currentList_def pullNext_def
          split: list.splits)
  ultimately show ?thesis
    using Enqueue inv by simp
next
  case SkipCurrent
  show ?thesis
  proof (cases "state e = Synthesizing \<or> state e = Playing")
    case True
    then have "ended (skipCurrent e) = ended e" "streamed (skipCurrent e) = streamed e"
      "playingList (skipCurrent e) = []"
      by (simp_all add: skipCurrent_def ended_pullNext_leave pullNext_logs leave_logs)
    then show ?thesis
      using SkipCurrent inv subseq_append_left by simp
  next
    case False
    then show ?thesis
      using SkipCurrent inv by (simp add: skipCurrent_def)
  qed
next
  case (SynthesisSucceeded i)
  show ?thesis
  proof (cases "\<exists>x sink. current e = Some x \<and> state e = Synthesizing \<and> fst x = i
                  \<and> outputBinding e = Some sink")
    case True
    then obtain x sink where x: "current e = Some x" "state e = Synthesizing" "fst x = i"
        "outputBinding e = Some sink"
      by blast
    then have "ended (synthesisSucceeded i e) = ended e"
      "streamed (synthesisSucceeded i e) = streamed e @ [x]"
      "playingList (synthesisSucceeded i e) = [x]" "playingList e = []"
      by (simp_all add: synthesisSucceeded_def ended_def withOutcome_def playingList_def
            currentList_def)
    then show ?thesis
      using SynthesisSucceeded inv subseq_snoc_both by simp
  next
    case False
    then have "ended (synthesisSucceeded i e) = ended e"
      "streamed (synthesisSucceeded i e) = streamed e"
      "playingList (synthesisSucceeded i e) = playingList e"
      by (auto simp: synthesisSucceeded_def ended_def withOutcome_def playingList_def
            currentList_def split: option.splits)
    then show ?thesis
      using SynthesisSucceeded inv by simp
  qed
next
  case (SynthesisFailed i)
  have "ended (synthesisFailed i e) = ended e" "streamed (synthesisFailed i e) = streamed e"
    by (simp_all add: synthesisFailed_def ended_pullNext_leave pullNext_logs leave_logs
          split: option.splits)
       (simp_all add: ended_def withOutcome_def)
  moreover have "playingList (synthesisFailed i e) = playingList e"
  proof (cases "state e = Synthesizing")
    case True
    then have "playingList e = []"
      by (simp add: playingList_def)
    moreover have "playingList (e\<lparr>retried := True\<rparr>) = []"
      using True by (simp add: playingList_def)
    ultimately show ?thesis
      by (simp add: synthesisFailed_def pullNext_logs split: option.splits)
  next
    case False
    then show ?thesis
      by (simp add: synthesisFailed_def split: option.splits)
  qed
  ultimately show ?thesis
    using SynthesisFailed inv by simp
next
  case StreamCompleted
  show ?thesis
  proof (cases "state e = Playing")
    case True
    then have pl: "playingList e = currentList e"
      by (simp add: playingList_def)
    have "ended (streamCompleted e) = ended e @ playingList e"
      "streamed (streamCompleted e) = streamed e" "playingList (streamCompleted e) = []"
      using True by (simp_all add: streamCompleted_def ended_pullNext_leave pullNext_logs leave_logs pl)
    then show ?thesis
      using StreamCompleted inv by simp
  next
    case False
    then show ?thesis
      using StreamCompleted inv by (simp add: streamCompleted_def)
  qed
next
  case StreamErrored
  show ?thesis
  proof (cases "state e = Playing")
    case True
    then have pl: "playingList e = currentList e"
      by (simp add: playingList_def)
    have "ended (streamErrored e) = ended e @ playingList e"
      "streamed (streamErrored e) = streamed e" "playingList (streamErrored e) = []"
      using True by (simp_all add: streamErrored_def ended_pullNext_leave pullNext_logs leave_logs pl)
    then show ?thesis
      using StreamErrored inv by simp
  next
    case False
    then show ?thesis
      using StreamErrored inv by (simp add: streamErrored_def)
  qed
qed

lemma run_ended:
  "engine_ok e \<Longrightarrow> subseq (ended e @ playingList e) (streamed e) \<Longrightarrow>
   subseq (ended (run evs e) @ playingList (run evs e)) (streamed (run evs e))"
  by (induction evs arbitrary: e) (simp_all add: run_Nil run_Cons step_ok step_ended)

lemma filter_subseq_id:
  "subseq xs ys \<Longrightarrow> distinct ys \<Longrightarrow> filter (\<lambda>x. x \<in> set xs) ys = xs"
proof (induction rule: list_emb.induct)
  case (list_emb_Nil ys)
  show ?case by simp
next
  case (list_emb_Cons xs ys y)
  have "y \<notin> set xs"
  proof
    assume mem: "y \<in> set xs"
    obtain z where "z \<in> set ys" "y = z"
      using list_emb_Cons.hyps(1) mem by (rule list_emb_set)
    then show False using list_emb_Cons.prems by simp
  qed
  then show ?case
    using list_emb_Cons by simp
next
  case (list_emb_Cons2 x y xs ys)
  have ny: "y \<notin> set ys" and d: "distinct ys"
    using list_emb_Cons2.prems by simp_all
  have "filter (\<lambda>a. a \<in> set (x # xs)) ys = filter (\<lambda>a. a \<in> set xs) ys"
  proof (rule filter_cong [OF refl])
    fix a assume "a \<in> set ys"
    then have "a \<noteq> x" using ny list_emb_Cons2.hyps(1) by auto
    then show "(a \<in> set (x # xs)) = (a \<in> set xs)" by simp
  qed
  then show ?case
    using list_emb_Cons2 d by simp
qed

lemma enqueuedFrom_supplied: "map snd (enqueuedFrom n evs) = supplied evs"
proof (induction evs arbitrary: n)
  case Nil show ?case by simp
next
  case (Cons ev evs)
  show ?case by (cases ev) (simp_all add: Cons.IH)
qed

text \<open>All that is known of a run from a new engine bound to an output.\<close>

lemma run_facts:
  fixes evs vc
  defines "e \<equiv> run evs (boundEngine vc)"
  shows "engine_ok e" "live e"
    "map fst (finished e) @ pending e = enqueuedFrom 0 evs"
    "subseq (streamed e) (map fst (finished e) @ playingList e)"
    "subseq (ended e @ playingList e) (streamed e)"
    "workLeft e \<le> 2 * length evs"
    "snd ` set (finished e) \<subseteq> (\<Union>ev\<in>set evs. outcomeOf ev)"
proof -
  note f = boundEngine_facts [of vc]
  show "engine_ok e" unfolding e_def using f(1) by (rule run_ok)
  show "live e" unfolding e_def using f(2) by (rule run_live)
  show "map fst (finished e) @ pending e = enqueuedFrom 0 evs"
    using run_acct [OF f(1), of evs] f by (simp add: e_def)
  show "subseq (streamed e) (map fst (finished e) @ playingList e)"
    unfolding e_def using f by (intro run_streamed) simp_all
  show "subseq (ended e @ playingList e) (streamed e)"
    unfolding e_def using f by (intro run_ended) (simp_all add: ended_def withOutcome_def)
  show "workLeft e \<le> 2 * length evs"
    using run_work [of evs "boundEngine vc"] f by (simp add: e_def)
  show "snd ` set (finished e) \<subseteq> (\<Union>ev\<in>set evs. outcomeOf ev)"
    using run_outcomes [of evs "boundEngine vc"] f by (simp add: e_def)
qed

lemma streamed_of_enqueued:
  "subseq (streamed (run evs (boundEngine vc))) (enqueuedFrom 0 evs) \<and>
   distinct (streamed (run evs (boundEngine vc)))"
proof -
  let ?e = "run evs (boundEngine vc)"
  have "subseq (map fst (finished ?e) @ playingList ?e) (map fst (finished ?e) @ pending ?e)"
    by (auto simp: playingList_def pending_def intro: list_emb_append_mono)
  then have sub: "subseq (streamed ?e) (enqueuedFrom 0 evs)"
    using run_facts(3,4) [of evs vc] subseq_order.order_trans by metis
  then have "streamed ?e \<in> set (subseqs (enqueuedFrom 0 evs))"
    by simp
  then have "distinct (streamed ?e)"
    using enqueuedFrom_distinct by (rule subseqs_distinctD)
  with sub show ?thesis by simp
qed

lemma settled_facts:
  "\<exists>tr. settle (2 * length evs) (run evs (boundEngine vc)) = run (evs @ tr) (boundEngine vc) \<and>
        list_all (\<lambda>ev. isClean ev \<and> \<not> isEnqueue ev) tr \<and>
        enqueuedFrom 0 (evs @ tr) = enqueuedFrom 0 evs \<and>
        atRest (run (evs @ tr) (boundEngine vc))"
proof -
  let ?e1 = "run evs (boundEngine vc)"
  obtain tr where tr: "settle (2 * length evs) ?e1 = run tr ?e1"
      and q: "list_all (\<lambda>ev. isClean ev \<and> \<not> isEnqueue ev) tr"
    using settle_run by blast
  have "atRest (settle (2 * length evs) ?e1)"
    using run_facts(2,6) [of evs vc] by (intro settle_rest)
  then have rest: "atRest (run (evs @ tr) (boundEngine vc))"
    by (simp add: tr run_append)
  have noenq: "list_all (\<lambda>ev. \<not> isEnqueue ev) tr"
    using q by (simp add: list_all_iff)
  have enq: "enqueuedFrom 0 (evs @ tr) = enqueuedFrom 0 evs"
    by (simp add: enqueuedFrom_append enqueuedFrom_none [OF noenq])
  show ?thesis
    using tr q enq rest by (intro exI [of _ tr]) (simp add: run_append)
qed

text \<open>An engine at rest after a run with answers of a working service and sink added.\<close>

lemma rested_facts:
  fixes evs tr vc
  defines "e \<equiv> run (evs @ tr) (boundEngine vc)"
  assumes q: "list_all (\<lambda>ev. isClean ev \<and> \<not> isEnqueue ev) tr"
    and enq: "enqueuedFrom 0 (evs @ tr) = enqueuedFrom 0 evs"
    and rest: "atRest e"
  shows "map fst (finished e) = enqueuedFrom 0 evs"
    "list_all (\<lambda>ev. \<not> isFailure ev) evs \<Longrightarrow>
       delivered e = filter (\<lambda>x. x \<notin> set (skipped e)) (enqueuedFrom 0 evs)"
    "list_all isClean evs \<Longrightarrow>
       streamed e = enqueuedFrom 0 evs \<and> completed e = enqueuedFrom 0 evs"
proof -
  have pe: "pending e = []" and pl: "playingList e = []"
    using rest by (simp_all add: atRest_def pending_def currentList_def playingList_def)
  show fin: "map fst (finished e) = enqueuedFrom 0 evs"
    using run_facts(3) [of "evs @ tr" vc] enq pe by (simp add: e_def)
  have sub: "subseq (streamed e) (enqueuedFrom 0 evs)" and ds: "distinct (streamed e)"
    using streamed_of_enqueued [of "evs @ tr" vc] enq by (simp_all add: e_def)
  have low: "subseq (ended e) (streamed e)"
    using run_facts(5) [of "evs @ tr" vc] pl by (simp add: e_def)
  have dfin: "distinct (map fst (finished e))"
    unfolding fin by (rule enqueuedFrom_distinct)
  have outs: "snd ` set (finished e) \<subseteq> (\<Union>ev\<in>set (evs @ tr). outcomeOf ev)"
    using run_facts(7) [of "evs @ tr" vc] by (simp add: e_def)
  have trc: "\<And>ev. ev \<in> set tr \<Longrightarrow> isClean ev"
    using q by (simp add: list_all_iff)
  have del: "delivered e = ended e"
    unfolding delivered_def using low ds by (rule filter_subseq_id)
  show "delivered e = filter (\<lambda>x. x \<notin> set (skipped e)) (enqueuedFrom 0 evs)"
    if nf: "list_all (\<lambda>ev. \<not> isFailure ev) evs"
  proof -
    have "oc = Completed \<or> oc = Errored \<or> oc = Skipped" if "oc \<in> snd ` set (finished e)" for oc
    proof -
      from that outs obtain ev where ev: "ev \<in> set (evs @ tr)" and oc: "oc \<in> outcomeOf ev"
        by blast
      have "\<not> isFailure ev"
      proof (cases "ev \<in> set evs")
        case True
        with nf show ?thesis by (simp add: list_all_iff)
      next
        case False
        with ev have "isClean ev" using trc by simp
        then show ?thesis by (cases ev) simp_all
      qed
      with oc show ?thesis by (cases ev) simp_all
    qed
    then have "\<forall>x\<in>set (finished e).
        (snd x = Completed \<or> snd x = Errored) \<noteq> (snd x = Skipped)"
      by fastforce
    then have "map fst (filter (\<lambda>x. snd x = Completed \<or> snd x = Errored) (finished e))
        = filter (\<lambda>a. a \<notin> set (map fst (filter (\<lambda>x. snd x = Skipped) (finished e))))
            (map fst (finished e))"
      using dfin by (intro split_by_outcome)
    then have "ended e = filter (\<lambda>x. x \<notin> set (skipped e)) (enqueuedFrom 0 evs)"
      by (simp add: ended_def skipped_def withOutcome_def fin)
    then show ?thesis
      using del by simp
  qed
  show "streamed e = enqueuedFrom 0 evs \<and> completed e = enqueuedFrom 0 evs"
    if cl: "list_all isClean evs"
  proof -
    have "oc = Completed" if "oc \<in> snd ` set (finished e)" for oc
    proof -
      from that outs obtain ev where ev: "ev \<in> set (evs @ tr)" and oc: "oc \<in> outcomeOf ev"
        by blast
      have "isClean ev"
        using ev cl trc by (auto simp: list_all_iff)
      with oc show ?thesis by (cases ev) simp_all
    qed
    then have all: "\<forall>x\<in>set (finished e). snd x = Completed"
      by simp
    then have "filter (\<lambda>x. snd x = Completed) (finished e) = finished e"
      by (rule filter_all)
    then have wc: "withOutcome (\<lambda>oc. oc = Completed) e = enqueuedFrom 0 evs"
      by (simp add: withOutcome_def fin)
    have "filter (\<lambda>x. snd x = Completed \<or> snd x = Errored) (finished e) = finished e"
      using all by (intro filter_all) simp
    then have "ended e = enqueuedFrom 0 evs"
      by (simp add: ended_def withOutcome_def fin)
    then have "subseq (enqueuedFrom 0 evs) (streamed e)"
      using low by simp
    then have st: "streamed e = enqueuedFrom 0 evs"
      using sub by (simp add: subseq_order.antisym)
    have "completed e = filter (\<lambda>x. x \<in> set (enqueuedFrom 0 evs)) (enqueuedFrom 0 evs)"
      by (simp add: completed_def wc st)
    then have "completed e = enqueuedFrom 0 evs"
      by (simp add: filter_all)
    with st show ?thesis by simp
  qed
qed

section \<open>The claims\<close>

text \<open>
  C1, as amended: when the guild has a Player, \<open>queueMessage\<close> adds the utterance (its text
  normalised) behind everything that Player still has to play, the current utterance and
  the queue, and takes nothing away; no other Player and no entry of \<open>guildPlayers\<close> changes.
  When the guild has no Player, \<open>queueMessage\<close> returns the state it was given: the message is
  dropped.
\<close>

theorem queueMessage_appends_or_drops:
  "(guildPlayers app (gm_guildId msg) = None \<longrightarrow> queueMessage specPlayer uni app msg sid = app) \<and>
   (guildPlayers app (gm_guildId msg) = Some r \<and> engine_ok (heap app r) \<longrightarrow>
      pending (heap (queueMessage specPlayer uni app msg sid) r) =
        pending (heap app r) @
          [(nextId (heap app r),
            \<lparr>styleId = sid, message = getReadableString uni (gm_content msg)\<rparr>)] \<and>
      finished (heap (queueMessage specPlayer uni app msg sid) r) = finished (heap app r) \<and>
      streamed (heap (queueMessage specPlayer uni app msg sid) r) = streamed (heap app r) \<and>
      engine_ok (heap (queueMessage specPlayer uni app msg sid) r) \<and>
      (\<forall>r'. r' \<noteq> r \<longrightarrow> heap (queueMessage specPlayer uni app msg sid) r' = heap app r') \<and>
      guildPlayers (queueMessage specPlayer uni app msg sid) = guildPlayers app)"
proof -
  have "Player_queueMessage specPlayer = enqueue"
    by (simp add: specPlayer_def)
  then show ?thesis
    using enqueue_appends [of "heap app r"]
    by (simp add: queueMessage_def Let_def)
qed

theorem queueMessage_appends_or_drops_witness:
  "pending (heap twoQueued 0) =
     [(0, \<lparr>styleId = 3, message = js ''one''\<rparr>), (1, \<lparr>styleId = 3, message = js ''two''\<rparr>)] \<and>
   pending (heap (queueMessage specPlayer (\<lambda>cp. False) twoQueued
       \<lparr>gm_guildId = ''g'', gm_content = js ''three''\<rparr> 3) 0) =
     [(0, \<lparr>styleId = 3, message = js ''one''\<rparr>), (1, \<lparr>styleId = 3, message = js ''two''\<rparr>),
      (2, \<lparr>styleId = 3, message = js ''three''\<rparr>)] \<and>
   queueMessage specPlayer (\<lambda>cp. False) twoQueued
       \<lparr>gm_guildId = ''h'', gm_content = js ''three''\<rparr> 3 = twoQueued"
proof -
  have tq: "heap twoQueued 0 =
      \<lparr>state = Synthesizing, queue = [(1, \<lparr>styleId = 3, message = js ''two''\<rparr>)],
       current = Some (0, \<lparr>styleId = 3, message = js ''one''\<rparr>), retried = False, nextId = 2,
       outputBinding = Some \<lparr>vc_guildId = ''g'', vc_channelId = ''c''\<rparr>, streamed = [],
       finished = []\<rparr>"
    by (simp add: twoQueued_def app_eval engine_eval string_eval)
  have g: "guildPlayers twoQueued ''g'' = Some 0" "guildPlayers twoQueued ''h'' = None"
    by (simp_all add: twoQueued_def app_eval)
  have n: "getReadableString (\<lambda>cp. False) (js ''three'') = js ''three''"
    by (simp add: string_eval)
  have p: "pending (heap twoQueued 0) =
     [(0, \<lparr>styleId = 3, message = js ''one''\<rparr>), (1, \<lparr>styleId = 3, message = js ''two''\<rparr>)]"
    "engine_ok (heap twoQueued 0)" "nextId (heap twoQueued 0) = 2"
    by (simp_all add: tq pending_def currentList_def engine_ok_def)
  show ?thesis
    using g n p
      queueMessage_appends_or_drops [of twoQueued "\<lparr>gm_guildId = ''g'', gm_content = js ''three''\<rparr>"
        "\<lambda>cp. False" 3 0]
      queueMessage_appends_or_drops [of twoQueued "\<lparr>gm_guildId = ''h'', gm_content = js ''three''\<rparr>"
        "\<lambda>cp. False" 3 0]
    by simp
qed

theorem queueMessage_drops_counterexample:
  "queueMessage specPlayer (\<lambda>cp. False) (newZundacord specPlayer (\<lambda>g u. Some 3))
       \<lparr>gm_guildId = ''g'', gm_content = js ''hello''\<rparr> 3
     = newZundacord specPlayer (\<lambda>g u. Some 3) \<and>
   pending (heap (queueMessage specPlayer (\<lambda>cp. False)
             (newZundacord specPlayer (\<lambda>g u. Some 3))
             \<lparr>gm_guildId = ''g'', gm_content = js ''hello''\<rparr> 3) 0) = [] \<and>
   snd (messageContextReadThisMessage specPlayer (\<lambda>cp. False)
          (newZundacord specPlayer (\<lambda>g u. Some 3)) (joinRequest ''g'' ''u'' ''c'')
          \<lparr>gm_guildId = ''g'', gm_content = js ''hello''\<rparr>)
     = mkEmbed COLOR_SUCCESS ''Successfully enqueued!''
         ''The message is successfully enqueued to be read''"
  by (simp add: queueMessage_def messageContextReadThisMessage_def newZundacord_def
        joinRequest_def specPlayer_def newEngine_def pending_def currentList_def)

text \<open>
  C2: the player is handed the text its caller computed and keeps it as it is. On the side
  of the bot, \<open>queueMessage\<close> passes to \<^verbatim>\<open>player.queueMessage\<close> the style id and the text it
  computed from the content, and does nothing else to the Player. On the side of the
  engine, take any sequence of events on an engine made as the bot makes it: the texts and
  style ids of the finished, current and queued utterances are those of the \<open>enqueue\<close>
  calls, in the order of the calls and unchanged; every text handed to the output is one of
  them, in this order; and left to a working service and sink after calls with no skip and
  no failure, the texts handed to the output are exactly the texts supplied, one for one.
  When the Player of the guild is such an engine, \<open>queueMessage\<close> of the bot is one more
  \<open>enqueue\<close> event with the text the bot computed.
\<close>

theorem engine_keeps_text:
  "let e1 = run evs (boundEngine vc); e = settle (2 * length evs) e1 in
     map snd (map fst (finished e1) @ pending e1) = supplied evs \<and>
     subseq (map snd (streamed e1)) (supplied evs) \<and>
     (list_all isClean evs \<longrightarrow> map snd (streamed e) = supplied evs) \<and>
     (guildPlayers app (gm_guildId msg) = Some r \<and> heap app r = e1 \<longrightarrow>
        heap (queueMessage specPlayer uni app msg sid) r
          = run (evs @ [Enqueue \<lparr>styleId = sid,
                                  message = getReadableString uni (gm_content msg)\<rparr>])
              (boundEngine vc)) \<and>
     (guildPlayers zc (gm_guildId msg) = Some q \<longrightarrow>
        heap (queueMessage P uni zc msg sid) q
          = Player_queueMessage P
              \<lparr>styleId = sid, message = getReadableString uni (gm_content msg)\<rparr> (heap zc q))"
proof -
  define e1 where "e1 = run evs (boundEngine vc)"
  define e where "e = settle (2 * length evs) e1"
  have a: "map snd (map fst (finished e1) @ pending e1) = supplied evs"
    using run_facts(3) [of evs vc] enqueuedFrom_supplied [of 0 evs]
    unfolding e1_def by metis
  have "subseq (map snd (streamed e1)) (map snd (enqueuedFrom 0 evs))"
    using streamed_of_enqueued [of evs vc] unfolding e1_def by (intro subseq_map) simp
  then have b: "subseq (map snd (streamed e1)) (supplied evs)"
    by (simp add: enqueuedFrom_supplied)
  obtain tr where tr: "e = run (evs @ tr) (boundEngine vc)"
      and q: "list_all (\<lambda>ev. isClean ev \<and> \<not> isEnqueue ev) tr"
      and enq: "enqueuedFrom 0 (evs @ tr) = enqueuedFrom 0 evs"
      and rest: "atRest (run (evs @ tr) (boundEngine vc))"
    unfolding e_def e1_def using settled_facts [of evs vc] by blast
  have c: "map snd (streamed e) = supplied evs" if "list_all isClean evs"
    using rested_facts(3) [OF q enq rest that] enqueuedFrom_supplied [of 0 evs]
    by (simp add: tr)
  have d: "heap (queueMessage specPlayer uni app msg sid) r
      = run (evs @ [Enqueue \<lparr>styleId = sid,
                              message = getReadableString uni (gm_content msg)\<rparr>])
          (boundEngine vc)"
    if "guildPlayers app (gm_guildId msg) = Some r" "heap app r = e1"
    using that by (simp add: queueMessage_def Let_def specPlayer_def run_append run_Cons run_Nil
        e1_def)
  have f: "heap (queueMessage P uni zc msg sid) q
      = Player_queueMessage P
          \<lparr>styleId = sid, message = getReadableString uni (gm_content msg)\<rparr> (heap zc q)"
    if "guildPlayers zc (gm_guildId msg) = Some q"
    using that by (simp add: queueMessage_def Let_def)
  show ?thesis
    using a b c d f unfolding Let_def e_def [symmetric] e1_def [symmetric]
    by blast
qed

theorem engine_keeps_text_witness:
  "list_all isClean [Enqueue \<lparr>styleId = 1, message = js ''hello''\<rparr>,
                     Enqueue \<lparr>styleId = 2, message = js ''world''\<rparr>] \<and>
   map snd (streamed (settle 4 (run [Enqueue \<lparr>styleId = 1, message = js ''hello''\<rparr>,
                                     Enqueue \<lparr>styleId = 2, message = js ''world''\<rparr>]
                                  (boundEngine \<lparr>vc_guildId = ''g'', vc_channelId = ''c''\<rparr>))))
     = [\<lparr>styleId = 1, message = js ''hello''\<rparr>, \<lparr>styleId = 2, message = js ''world''\<rparr>] \<and>
   guildPlayers (joinedApp specPlayer) ''g'' = Some 0 \<and>
   heap (joinedApp specPlayer) 0 = run [] (boundEngine \<lparr>vc_guildId = ''g'', vc_channelId = ''c''\<rparr>) \<and>
   heap (queueMessage specPlayer (\<lambda>cp. False) (joinedApp specPlayer)
           \<lparr>gm_guildId = ''g'', gm_content = js ''hi https://x.y ''\<rparr> 3) 0
     = run [Enqueue \<lparr>styleId = 3, message = js ''hi''\<rparr>]
         (boundEngine \<lparr>vc_guildId = ''g'', vc_channelId = ''c''\<rparr>)"
proof -
  let ?vc = "\<lparr>vc_guildId = ''g'', vc_channelId = ''c''\<rparr>"
  let ?t1 = "[Enqueue \<lparr>styleId = 1, message = js ''hello''\<rparr>,
              Enqueue \<lparr>styleId = 2, message = js ''world''\<rparr>]"
  let ?msg = "\<lparr>gm_guildId = ''g'', gm_content = js ''hi https://x.y ''\<rparr>"
  have c1: "list_all isClean ?t1" by simp
  have h: "guildPlayers (joinedApp specPlayer) (gm_guildId ?msg) = Some 0"
    by (simp add: app_eval)
  have e: "heap (joinedApp specPlayer) 0 = run [] (boundEngine ?vc)"
    by (simp add: app_eval run_Nil specPlayer_def boundEngine_def)
  have g: "getReadableString (\<lambda>cp. False) (js ''hi https://x.y '') = js ''hi''"
    by (simp add: string_eval)
  show ?thesis
    using c1 h e g
      engine_keeps_text [where evs = ?t1 and vc = ?vc and app = "joinedApp specPlayer"
        and msg = ?msg and r = 1 and zc = "joinedApp specPlayer" and q = 1
        and uni = "\<lambda>cp. False" and sid = 3 and P = specPlayer]
      engine_keeps_text [where evs = "[]" and vc = ?vc and app = "joinedApp specPlayer"
        and msg = ?msg and r = 0 and zc = "joinedApp specPlayer" and q = 0
        and uni = "\<lambda>cp. False" and sid = 3 and P = specPlayer]
    by (simp add: Let_def)
qed



text \<open>
  C4, as amended: when the race is rejected (a true disconnect) the handler destroys the
  voice connection and removes the entry of the guild from \<open>guildPlayers\<close>. It calls nothing on
  the Player: every Player object, the removed one too, is as it was. The entries of other
  guilds are unchanged, and from then on \<open>queueMessage\<close>, \<open>onMessageCreate\<close> and \<^verbatim>\<open>/skip\<close> for
  that guild find no Player and change nothing.
\<close>

theorem true_disconnect_removes_entry:
  "guildPlayers (onDisconnected app guild Rejected) guild = None \<and>
   voiceConnections (onDisconnected app guild Rejected) guild = None \<and>
   heap (onDisconnected app guild Rejected) = heap app \<and>
   (\<forall>g. g \<noteq> guild \<longrightarrow>
      guildPlayers (onDisconnected app guild Rejected) g = guildPlayers app g \<and>
      voiceConnections (onDisconnected app guild Rejected) g = voiceConnections app g) \<and>
   (gm_guildId m = guild \<longrightarrow>
      queueMessage P uni (onDisconnected app guild Rejected) m sid
        = onDisconnected app guild Rejected) \<and>
   (msg_guildId msg = Some guild \<longrightarrow>
      onMessageCreate P uni (onDisconnected app guild Rejected) msg
        = onDisconnected app guild Rejected) \<and>
   (ci_guildId interaction = guild \<longrightarrow>
      fst (slashSkip P (onDisconnected app guild Rejected) interaction)
        = onDisconnected app guild Rejected)"
  by (auto simp: onDisconnected_def queueMessage_def onMessageCreate_def inGuild_def slashSkip_def
        Let_def split: option.splits)

theorem true_disconnect_removes_entry_witness:
  "guildPlayers twoQueued ''g'' = Some 0 \<and>
   guildPlayers (onDisconnected twoQueued ''g'' Rejected) ''g'' = None \<and>
   heap (onDisconnected twoQueued ''g'' Rejected) 0 = heap twoQueued 0 \<and>
   queueMessage specPlayer (\<lambda>cp. False) (onDisconnected twoQueued ''g'' Rejected)
       \<lparr>gm_guildId = ''g'', gm_content = js ''three''\<rparr> 3
     = onDisconnected twoQueued ''g'' Rejected"
proof -
  have g: "guildPlayers twoQueued ''g'' = Some 0"
    by (simp add: twoQueued_def app_eval)
  show ?thesis
    using g
      true_disconnect_removes_entry [of twoQueued "''g''"
        "\<lparr>gm_guildId = ''g'', gm_content = js ''three''\<rparr>" specPlayer "\<lambda>cp. False" 3
        "\<lparr>msg_authorId = ''u'', msg_guildId = Some ''g'', msg_content = js ''x''\<rparr>"
        "joinRequest ''g'' ''u'' ''c''"]
    by simp
qed

theorem true_disconnect_counterexample:
  "guildPlayers (onDisconnected twoQueued ''g'' Rejected) ''g'' = None \<and>
   state (heap (onDisconnected twoQueued ''g'' Rejected) 0) \<noteq> Draining \<and>
   pending (heap (onDisconnected twoQueued ''g'' Rejected) 0) =
     [(0, \<lparr>styleId = 3, message = js ''one''\<rparr>), (1, \<lparr>styleId = 3, message = js ''two''\<rparr>)] \<and>
   heap (onDisconnected twoQueued ''g'' Rejected) 0 \<noteq> shutdown (heap twoQueued 0)"
proof -
  have tq: "heap twoQueued 0 =
      \<lparr>state = Synthesizing, queue = [(1, \<lparr>styleId = 3, message = js ''two''\<rparr>)],
       current = Some (0, \<lparr>styleId = 3, message = js ''one''\<rparr>), retried = False, nextId = 2,
       outputBinding = Some \<lparr>vc_guildId = ''g'', vc_channelId = ''c''\<rparr>, streamed = [],
       finished = []\<rparr>"
    by (simp add: twoQueued_def app_eval engine_eval string_eval)
  show ?thesis
    by (simp add: onDisconnected_def tq pending_def currentList_def shutdown_def)
qed

text \<open>
  C5, as amended: \<open>guildPlayers\<close> holds at most one Player for a guild, and a \<^verbatim>\<open>/join\<close> for a
  guild that already has a voice connection changes nothing: no Player is created and the
  entry of the guild stays as it is; the reply is "Already joined!". A \<^verbatim>\<open>/join\<close> for a guild
  without a voice connection, sent by a member in a voice channel, creates a new Player
  and sets the entry of the guild to it, whatever the entry was; every Player created
  before is as it was, so an earlier Player of that guild can exist beside the new one.
  When the member is unknown or in no voice channel, nothing changes.
\<close>

theorem slashJoin_already_joined:
  "(voiceConnections app (ci_guildId interaction) \<noteq> None \<longrightarrow>
      slashJoin P app interaction =
        (app, mkEmbed COLOR_SUCCESS ''Already joined!'' ''The bot is already in voice'')) \<and>
   (voiceConnections app (ci_guildId interaction) = None \<and> ci_member interaction = Some member \<and>
    member_voice_channel member = Some channel \<longrightarrow>
      guildPlayers (fst (slashJoin P app interaction)) (ci_guildId interaction)
        = Some (nextRef app) \<and>
      heap (fst (slashJoin P app interaction)) (nextRef app)
        = Player_setStreamTarget P
            \<lparr>vc_guildId = ci_guildId interaction, vc_channelId = channel_id channel\<rparr>
            (Player_new P) \<and>
      (\<forall>r. r \<noteq> nextRef app \<longrightarrow> heap (fst (slashJoin P app interaction)) r = heap app r) \<and>
      (\<forall>g. g \<noteq> ci_guildId interaction \<longrightarrow>
         guildPlayers (fst (slashJoin P app interaction)) g = guildPlayers app g) \<and>
      nextRef (fst (slashJoin P app interaction)) = Suc (nextRef app) \<and>
      voiceConnections (fst (slashJoin P app interaction)) (ci_guildId interaction)
        = Some \<lparr>vc_guildId = ci_guildId interaction, vc_channelId = channel_id channel\<rparr>) \<and>
   (voiceConnections app (ci_guildId interaction) = None \<and>
    (ci_member interaction = None \<or>
     (ci_member interaction = Some member \<and> member_voice_channel member = None)) \<longrightarrow>
      fst (slashJoin P app interaction) = app)"
  by (auto simp: slashJoin_def Let_def)

theorem slashJoin_already_joined_witness:
  "voiceConnections (joinedApp recordingPlayer) ''g'' \<noteq> None \<and>
   guildPlayers (joinedApp recordingPlayer) ''g'' = Some 0 \<and>
   nextRef (joinedApp recordingPlayer) = 1 \<and>
   fst (slashJoin recordingPlayer (joinedApp recordingPlayer) (joinRequest ''g'' ''v'' ''d''))
     = joinedApp recordingPlayer \<and>
   voiceConnections (joinedApp recordingPlayer) ''k'' = None \<and>
   guildPlayers (fst (slashJoin recordingPlayer (joinedApp recordingPlayer)
                        (joinRequest ''k'' ''v'' ''d''))) ''k'' = Some 1 \<and>
   guildPlayers (fst (slashJoin recordingPlayer (joinedApp recordingPlayer)
                        (joinRequest ''k'' ''v'' ''d''))) ''g'' = Some 0 \<and>
   fst (slashJoin recordingPlayer (joinedApp recordingPlayer)
          \<lparr>ci_guildId = ''k'', ci_userId = ''v'', ci_inCachedGuild = True, ci_member = None\<rparr>)
     = joinedApp recordingPlayer"
proof -
  let ?a = "joinedApp recordingPlayer"
  let ?ch = "\<lparr>channel_id = ''d'', channel_name = ''General''\<rparr>"
  let ?m = "\<lparr>member_voice_channel = Some ?ch\<rparr>"
  have a: "voiceConnections ?a ''g'' \<noteq> None" "guildPlayers ?a ''g'' = Some 0" "nextRef ?a = 1"
    "voiceConnections ?a ''k'' = None"
    by (simp_all add: app_eval)
  have j: "ci_guildId (joinRequest ''g'' ''v'' ''d'') = ''g''"
    "ci_guildId (joinRequest ''k'' ''v'' ''d'') = ''k''"
    "ci_member (joinRequest ''k'' ''v'' ''d'') = Some ?m"
    "member_voice_channel ?m = Some ?ch"
    by (simp_all add: joinRequest_def)
  show ?thesis
    using a j
      slashJoin_already_joined [where app = ?a and interaction = "joinRequest ''g'' ''v'' ''d''"
        and member = ?m and channel = ?ch and P = recordingPlayer]
      slashJoin_already_joined [where app = ?a and interaction = "joinRequest ''k'' ''v'' ''d''"
        and member = ?m and channel = ?ch and P = recordingPlayer]
      slashJoin_already_joined [where app = ?a and interaction =
        "\<lparr>ci_guildId = ''k'', ci_userId = ''v'', ci_inCachedGuild = True, ci_member = None\<rparr>"
        and member = ?m and channel = ?ch and P = recordingPlayer]
    by simp
qed

theorem two_players_counterexample:
  "guildPlayers rejoined ''g'' = Some 1 \<and>
   heap rejoined 1 = boundEngine \<lparr>vc_guildId = ''g'', vc_channelId = ''c''\<rparr> \<and>
   state (heap rejoined 0) = Synthesizing \<and>
   outputBinding (heap rejoined 0) = Some \<lparr>vc_guildId = ''g'', vc_channelId = ''c''\<rparr> \<and>
   pending (heap rejoined 0) =
     [(0, \<lparr>styleId = 3, message = js ''one''\<rparr>), (1, \<lparr>styleId = 3, message = js ''two''\<rparr>)]"
proof -
  have tq: "heap twoQueued 0 =
      \<lparr>state = Synthesizing, queue = [(1, \<lparr>styleId = 3, message = js ''two''\<rparr>)],
       current = Some (0, \<lparr>styleId = 3, message = js ''one''\<rparr>), retried = False, nextId = 2,
       outputBinding = Some \<lparr>vc_guildId = ''g'', vc_channelId = ''c''\<rparr>, streamed = [],
       finished = []\<rparr>"
    by (simp add: twoQueued_def app_eval engine_eval string_eval)
  have g: "voiceConnections (onDisconnected twoQueued ''g'' Rejected) ''g'' = None"
    "nextRef (onDisconnected twoQueued ''g'' Rejected) = 1"
    "heap (onDisconnected twoQueued ''g'' Rejected) 0 = heap twoQueued 0"
    by (simp_all add: onDisconnected_def twoQueued_def app_eval)
  show ?thesis
    using g
    by (simp add: rejoined_def slashJoin_def joinRequest_def Let_def tq pending_def
          currentList_def specPlayer_def boundEngine_def)
qed

text \<open>
  C6: when the connection, after a disconnect, enters Signalling or Connecting within the
  five seconds the handler waits, the handler changes nothing: the entry of the guild in
  \<open>guildPlayers\<close>, the Player it refers to and every other part of the state are as before.
\<close>

theorem reconnect_changes_nothing:
  "onDisconnected app guild EnteredState = app \<and>
   guildPlayers (onDisconnected app guild EnteredState) guild = guildPlayers app guild \<and>
   heap (onDisconnected app guild EnteredState) = heap app \<and>
   voiceConnections (onDisconnected app guild EnteredState) guild = voiceConnections app guild"
  by (simp add: onDisconnected_def)

theorem reconnect_changes_nothing_witness:
  "guildPlayers (onDisconnected (joinedApp recordingPlayer) ''g'' EnteredState) ''g'' = Some 0 \<and>
   voiceConnections (onDisconnected (joinedApp recordingPlayer) ''g'' EnteredState) ''g''
     = Some \<lparr>vc_guildId = ''g'', vc_channelId = ''c''\<rparr>"
proof -
  have g: "guildPlayers (joinedApp recordingPlayer) ''g'' = Some 0 \<and>
           voiceConnections (joinedApp recordingPlayer) ''g''
             = Some \<lparr>vc_guildId = ''g'', vc_channelId = ''c''\<rparr>"
    by (simp add: app_eval)
  show ?thesis
    using g reconnect_changes_nothing [of "joinedApp recordingPlayer" "''g''"]
    by simp
qed

text \<open>
  C7: \<^verbatim>\<open>/skip\<close> when nothing is active changes nothing. Without a Player for the guild
  (or outside a cached guild) \<open>slashSkip\<close> returns the state it was given; with a Player
  that is \<open>Idle\<close> or \<open>Draining\<close>, \<open>skipCurrent\<close> returns the engine it was given, so the
  state of the bot is again unchanged. Both functions are total and return only the state.
\<close>

theorem skip_when_nothing_active:
  "(\<not> ci_inCachedGuild interaction \<or> guildPlayers app (ci_guildId interaction) = None \<or>
      (\<exists>r. guildPlayers app (ci_guildId interaction) = Some r \<and>
           (state (heap app r) = Idle \<or> state (heap app r) = Draining))
     \<longrightarrow> fst (slashSkip specPlayer app interaction) = app) \<and>
   (state e = Idle \<or> state e = Draining \<longrightarrow> skipCurrent e = e)"
  by (auto simp: slashSkip_def specPlayer_def skipCurrent_def split: option.splits)

theorem skip_when_nothing_active_witness:
  "state (heap (joinedApp specPlayer) 0) = Idle \<and>
   fst (slashSkip specPlayer (joinedApp specPlayer) (joinRequest ''g'' ''u'' ''c''))
     = joinedApp specPlayer \<and>
   fst (slashSkip specPlayer (joinedApp specPlayer) (joinRequest ''h'' ''u'' ''c''))
     = joinedApp specPlayer \<and>
   state (shutdown (enqueue \<lparr>styleId = 1, message = js ''a''\<rparr> newEngine)) = Draining \<and>
   skipCurrent (shutdown (enqueue \<lparr>styleId = 1, message = js ''a''\<rparr> newEngine))
     = shutdown (enqueue \<lparr>styleId = 1, message = js ''a''\<rparr> newEngine)"
proof -
  have a: "guildPlayers (joinedApp specPlayer) (ci_guildId (joinRequest ''g'' ''u'' ''c'')) = Some 0"
    "guildPlayers (joinedApp specPlayer) (ci_guildId (joinRequest ''h'' ''u'' ''c'')) = None"
    "state (heap (joinedApp specPlayer) 0) = Idle"
    by (simp_all add: app_eval engine_eval)
  have d: "state (shutdown (enqueue \<lparr>styleId = 1, message = js ''a''\<rparr> newEngine)) = Draining"
    by (simp add: engine_eval)
  show ?thesis
    using a d
      skip_when_nothing_active [of "joinRequest ''g'' ''u'' ''c''" "joinedApp specPlayer"
        "shutdown (enqueue \<lparr>styleId = 1, message = js ''a''\<rparr> newEngine)"]
      skip_when_nothing_active [of "joinRequest ''h'' ''u'' ''c''" "joinedApp specPlayer"
        "shutdown (enqueue \<lparr>styleId = 1, message = js ''a''\<rparr> newEngine)"]
    by simp
qed

text \<open>
  C8: \<open>getReadableString\<close> removes only the first http(s) URL: of a string with two URLs the
  second one is still in the result. For every string, only the leftmost match of the URL
  pattern is cut out and all that follows it goes on to the other steps as it is; every
  code point of the result is a letter, number, punctuation or separator; and no emoji
  escape is left anywhere in the result. For content made of pieces, with the first URL
  followed by white space or the end: the result is the content without that URL,
  without every emoji escape, every symbol outside L, N, P and Z and every white space
  that is no separator, trimmed; the words stay in place, a later URL among them.
\<close>

theorem getReadableString_first_url_only:
  "getReadableString uni (js ''http://a.b x http://c.d'') = js ''x http://c.d'' \<and>
   ((\<forall>k<i. matchUrl (drop k s) = None) \<and> matchUrl (drop i s) = Some n \<longrightarrow>
      getReadableString uni s
        = trim (stripUnreadable uni (replaceAllEmoji (take i s @ drop (i + n) s)))) \<and>
   list_all (isReadable uni) (codePoints (getReadableString uni s)) \<and>
   matchEmoji (drop k (getReadableString uni s)) = None \<and>
   (list_all (validPiece uni) A \<and> list_all frontPiece A \<and> validPiece uni (Url secure body) \<and>
    list_all (validPiece uni) B \<and> list_all (\<lambda>p. \<not> isUrl p) B \<and> startsWithSpace B \<longrightarrow>
      getReadableString uni (concat (map render (A @ Url secure body # B)))
        = trim (concat (map render (filter (kept uni) (A @ B))))) \<and>
   (list_all (validPiece uni) A \<and> list_all frontPiece A \<longrightarrow>
      getReadableString uni (concat (map render A))
        = trim (concat (map render (filter (kept uni) A))))"
proof -
  have 1: "getReadableString uni (js ''http://a.b x http://c.d'') = js ''x http://c.d''"
    by (simp add: string_eval)
  have 2: "getReadableString uni s
        = trim (stripUnreadable uni (replaceAllEmoji (take i s @ drop (i + n) s)))"
    if "\<forall>k<i. matchUrl (drop k s) = None" "matchUrl (drop i s) = Some n"
  proof -
    have "replaceFirstUrl s = take i s @ drop (i + n) s"
      using that by (intro replaceFirstUrl_at) auto
    then show ?thesis by (simp add: getReadableString_def)
  qed
  show ?thesis
    using 1 2 getReadableString_readable [of uni s] no_emoji_left [of k uni s]
      getReadableString_first_url [of uni A secure body B] getReadableString_front [of uni A]
    by blast
qed

theorem getReadableString_first_url_only_witness:
  "matchUrl (drop 0 (js ''a http://b http://c'')) = None \<and>
   matchUrl (drop 1 (js ''a http://b http://c'')) = None \<and>
   matchUrl (drop 2 (js ''a http://b http://c'')) = Some 8 \<and>
   getReadableString (\<lambda>cp. False) (js ''a http://b http://c'') = js ''a  http://c'' \<and>
   concat (map render
     ([Word (js ''a''), Emoji False (js ''ab'') (js ''12''), Space 0x20] @
      Url True (js ''b.c/d'') #
      [Space 0x20, Word (js ''x''), Emoji True (js ''e'') (js ''3''), Symbol 0x2764, Space 0x09,
       Space 0x20, Word (js ''http://c.d''), Pictograph 0xD83D 0xDE00]))
     = js ''a<:ab:12> https://b.c/d x<a:e:3>'' @ [0x2764, 0x09] @ js '' http://c.d''
         @ [0xD83D, 0xDE00] \<and>
   getReadableString (\<lambda>cp. False)
     (js ''a<:ab:12> https://b.c/d x<a:e:3>'' @ [0x2764, 0x09] @ js '' http://c.d''
         @ [0xD83D, 0xDE00])
     = js ''a  x http://c.d''"
proof -
  let ?A = "[Word (js ''a''), Emoji False (js ''ab'') (js ''12''), Space 0x20]"
  let ?B = "[Space 0x20, Word (js ''x''), Emoji True (js ''e'') (js ''3''), Symbol 0x2764,
             Space 0x09, Space 0x20, Word (js ''http://c.d''), Pictograph 0xD83D 0xDE00]"
  let ?u = "\<lambda>cp::nat. False"
  have h: "\<forall>k<2. matchUrl (drop k (js ''a http://b http://c'')) = None"
  proof (intro allI impI)
    fix k :: nat
    assume "k < 2"
    then have "k = 0 \<or> k = 1" by arith
    then show "matchUrl (drop k (js ''a http://b http://c'')) = None"
      by (auto simp: string_eval)
  qed
  have m: "matchUrl (drop 2 (js ''a http://b http://c'')) = Some 8"
    by (simp add: string_eval)
  have r: "trim (stripUnreadable ?u (replaceAllEmoji
             (take 2 (js ''a http://b http://c'') @ drop (2 + 8) (js ''a http://b http://c''))))
           = js ''a  http://c''"
    by (simp add: string_eval)
  have vA: "list_all (validPiece ?u) ?A \<and> list_all frontPiece ?A"
    by (simp add: js_def isWhiteSpace_def isDigit_def asciiReadable_def)
  have vu: "validPiece ?u (Url True (js ''b.c/d''))"
    by (simp add: js_def isWhiteSpace_def)
  have vB: "list_all (validPiece ?u) ?B \<and> list_all (\<lambda>p. \<not> isUrl p) ?B \<and> startsWithSpace ?B"
    by (simp add: js_def isWhiteSpace_def isDigit_def asciiReadable_def isHighSurrogate_def
          isLowSurrogate_def isReadable_def codePoint_def)
  have c: "concat (map render (?A @ Url True (js ''b.c/d'') # ?B))
     = js ''a<:ab:12> https://b.c/d x<a:e:3>'' @ [0x2764, 0x09] @ js '' http://c.d''
         @ [0xD83D, 0xDE00]"
    by (simp add: js_def mkEmoji_def mkUrl_def)
  have t: "trim (concat (map render (filter (kept ?u) (?A @ ?B)))) = js ''a  x http://c.d''"
    by (simp add: js_def trim_def isWhiteSpace_def isReadable_def asciiReadable_def)
  show ?thesis
    using h m r vA vu vB c t
      getReadableString_first_url_only [of ?u 2 "js ''a http://b http://c''" 8 0 ?A True
        "js ''b.c/d''" ?B]
    by (simp add: string_eval)
qed

text \<open>
  C9: \<open>onMessageCreate\<close> leaves the state as it is, so enqueues nothing, when the author is
  the bot itself, when the message is not in a guild, or when no voice style is stored for
  the author in that guild; when all three guards pass it is \<open>queueMessage\<close> with the stored
  style id.
\<close>

theorem onMessageCreate_guards:
  "(msg_authorId msg = applicationId app \<or> msg_guildId msg = None \<or>
      (\<exists>g. msg_guildId msg = Some g \<and> memberVoiceStyleId app g (msg_authorId msg) = None)
     \<longrightarrow> onMessageCreate P uni app msg = app) \<and>
   (msg_authorId msg \<noteq> applicationId app \<and> msg_guildId msg = Some g \<and>
      memberVoiceStyleId app g (msg_authorId msg) = Some sid
     \<longrightarrow> onMessageCreate P uni app msg =
         queueMessage P uni app \<lparr>gm_guildId = g, gm_content = msg_content msg\<rparr> sid)"
  by (auto simp: onMessageCreate_def inGuild_def split: option.splits)

theorem onMessageCreate_guards_witness:
  "onMessageCreate recordingPlayer (\<lambda>cp. False) (joinedApp recordingPlayer)
     \<lparr>msg_authorId = ''w'', msg_guildId = Some ''g'', msg_content = js ''yo''\<rparr>
     = joinedApp recordingPlayer \<and>
   onMessageCreate recordingPlayer (\<lambda>cp. False) (joinedApp recordingPlayer)
     \<lparr>msg_authorId = ''bot'', msg_guildId = Some ''g'', msg_content = js ''yo''\<rparr>
     = joinedApp recordingPlayer \<and>
   onMessageCreate recordingPlayer (\<lambda>cp. False) (joinedApp recordingPlayer)
     \<lparr>msg_authorId = ''u'', msg_guildId = None, msg_content = js ''yo''\<rparr>
     = joinedApp recordingPlayer \<and>
   heap (onMessageCreate recordingPlayer (\<lambda>cp. False) (joinedApp recordingPlayer)
     \<lparr>msg_authorId = ''u'', msg_guildId = Some ''g'', msg_content = js ''yo''\<rparr>) 0
     = [\<lparr>styleId = 3, message = js ''yo''\<rparr>]"
proof -
  let ?a = "joinedApp recordingPlayer"
  have a: "applicationId ?a = ''bot''" "memberVoiceStyleId ?a ''g'' ''w'' = None"
    "memberVoiceStyleId ?a ''g'' ''u'' = Some 3" "guildPlayers ?a ''g'' = Some 0" "heap ?a 0 = []"
    by (simp_all add: app_eval)
  have q: "heap (queueMessage recordingPlayer (\<lambda>cp. False) ?a
             \<lparr>gm_guildId = ''g'', gm_content = js ''yo''\<rparr> 3) 0 = [\<lparr>styleId = 3, message = js ''yo''\<rparr>]"
    by (simp add: queueMessage_def a recording_queue string_eval)
  show ?thesis
    using a q
      onMessageCreate_guards [of "\<lparr>msg_authorId = ''w'', msg_guildId = Some ''g'', msg_content = js ''yo''\<rparr>"
        ?a recordingPlayer "\<lambda>cp. False" "''g''" 3]
      onMessageCreate_guards [of "\<lparr>msg_authorId = ''bot'', msg_guildId = Some ''g'', msg_content = js ''yo''\<rparr>"
        ?a recordingPlayer "\<lambda>cp. False" "''g''" 3]
      onMessageCreate_guards [of "\<lparr>msg_authorId = ''u'', msg_guildId = None, msg_content = js ''yo''\<rparr>"
        ?a recordingPlayer "\<lambda>cp. False" "''g''" 3]
      onMessageCreate_guards [of "\<lparr>msg_authorId = ''u'', msg_guildId = Some ''g'', msg_content = js ''yo''\<rparr>"
        ?a recordingPlayer "\<lambda>cp. False" "''g''" 3]
    by simp
qed




end
